theory Spec2Isabelle
  imports Complex_Main "HOL-Library.AList"
begin

section \<open>Python values\<close>

text \<open>
  Variables (regions) and values (colours) are Python strings. A Python \<open>dict\<close> keeps its
  keys in insertion order and holds each key once: it is an association list, read with
  \<^const>\<open>map_of\<close>, written with \<^const>\<open>AList.update\<close> (which overwrites in place or
  appends) and shrunk with \<^const>\<open>AList.delete\<close>.
\<close>

type_synonym var = string
type_synonym colour = string
type_synonym 'v dict = "(var \<times> 'v) list"
type_synonym assignment = "colour dict"
type_synonym domain_map = "colour list dict"

datatype error = KeyError | ValueError | IndexError | NetworkXError

text \<open>\<open>k in d\<close>\<close>

definition contains :: "'v dict \<Rightarrow> var \<Rightarrow> bool" where
  "contains d k = (map_of d k \<noteq> None)"

text \<open>\<open>d[k]\<close>, which raises \<open>KeyError\<close> on a missing key\<close>

definition getitem :: "'v dict \<Rightarrow> var \<Rightarrow> error + 'v" where
  "getitem d k = (case map_of d k of None \<Rightarrow> Inl KeyError | Some v \<Rightarrow> Inr v)"

text \<open>\<open>d[k] = v\<close>\<close>

definition setitem :: "'v dict \<Rightarrow> var \<Rightarrow> 'v \<Rightarrow> 'v dict" where
  "setitem d k v = AList.update k v d"

text \<open>\<open>del d[k]\<close>, which raises \<open>KeyError\<close> on a missing key\<close>

definition delitem :: "'v dict \<Rightarrow> var \<Rightarrow> error + 'v dict" where
  "delitem d k = (if contains d k then Inr (AList.delete k d) else Inl KeyError)"

text \<open>\<open>d.update(other)\<close>: every item of \<open>other\<close> is stored into \<open>d\<close>, in order\<close>

definition dict_update :: "'v dict \<Rightarrow> 'v dict \<Rightarrow> 'v dict" where
  "dict_update d other = fold (\<lambda>(k, v) acc. setitem acc k v) other d"

text \<open>\<open>xs.remove(x)\<close>: drops the first occurrence, \<open>ValueError\<close> when there is none\<close>

definition list_remove :: "'a list \<Rightarrow> 'a \<Rightarrow> error + 'a list" where
  "list_remove xs x = (if x \<in> set xs then Inr (remove1 x xs) else Inl ValueError)"

text \<open>\<open>sum(len(d) for d in domains.values())\<close>\<close>

definition total_size :: "domain_map \<Rightarrow> int" where
  "total_size d = sum_list (map (\<lambda>(k, vs). int (length vs)) d)"

section \<open>The problem model (csp/model.py)\<close>

record CSPModel =
  variables :: "var list"
  domains :: domain_map
  constraints :: "(var \<times> var) list"

text \<open>
  \<open>__post_init__\<close> builds an undirected \<open>networkx.Graph\<close> from the variables and the
  constraints. The graph is a dict of adjacency dicts, both insertion ordered:
  \<open>add_nodes_from\<close> gives every new node an empty adjacency, \<open>add_edges_from\<close> adds the
  two end points as nodes where they are new and then stores \<open>adj[u][v]\<close> and \<open>adj[v][u]\<close>,
  which leaves an existing entry at its place. Only the keys of the inner dicts are read
  by the program, so an adjacency is the list of its keys.
\<close>

definition add_node :: "var \<Rightarrow> var list dict \<Rightarrow> var list dict" where
  "add_node n adj = (if contains adj n then adj else adj @ [(n, [])])"

definition add_nbr :: "var \<Rightarrow> var \<Rightarrow> var list dict \<Rightarrow> var list dict" where
  "add_nbr u v adj =
     (case map_of adj u of
        None \<Rightarrow> adj
      | Some ns \<Rightarrow> setitem adj u (if v \<in> set ns then ns else ns @ [v]))"

definition add_edge :: "var \<times> var \<Rightarrow> var list dict \<Rightarrow> var list dict" where
  "add_edge e adj =
     (case e of (u, v) \<Rightarrow> add_nbr v u (add_nbr u v (add_node v (add_node u adj))))"

definition graph :: "CSPModel \<Rightarrow> var list dict" where
  "graph csp = fold add_edge (constraints csp) (fold add_node (variables csp) [])"

text \<open>\<open>list(self.graph.neighbors(variable))\<close>; networkx raises for a node it does not have\<close>

definition get_neighbors :: "CSPModel \<Rightarrow> var \<Rightarrow> error + var list" where
  "get_neighbors csp variable =
     (case map_of (graph csp) variable of
        None \<Rightarrow> Inl NetworkXError
      | Some ns \<Rightarrow> Inr ns)"

fun is_consistent_loop :: "colour \<Rightarrow> assignment \<Rightarrow> var list \<Rightarrow> bool" where
  "is_consistent_loop val a [] = True"
| "is_consistent_loop val a (neighbor # rest) =
     (if contains a neighbor \<and> map_of a neighbor = Some val then False
      else is_consistent_loop val a rest)"

definition is_consistent :: "CSPModel \<Rightarrow> var \<Rightarrow> colour \<Rightarrow> assignment \<Rightarrow> error + bool" where
  "is_consistent csp variable val a =
     (case get_neighbors csp variable of
        Inl e \<Rightarrow> Inl e
      | Inr ns \<Rightarrow> Inr (is_consistent_loop val a ns))"

definition is_complete :: "CSPModel \<Rightarrow> assignment \<Rightarrow> bool" where
  "is_complete csp a = (length a = length (variables csp))"

fun is_valid_loop :: "assignment \<Rightarrow> (var \<times> var) list \<Rightarrow> error + bool" where
  "is_valid_loop a [] = Inr True"
| "is_valid_loop a ((var1, var2) # rest) =
     (case getitem a var1 of
        Inl e \<Rightarrow> Inl e
      | Inr c1 \<Rightarrow>
          (case getitem a var2 of
             Inl e \<Rightarrow> Inl e
           | Inr c2 \<Rightarrow> if c1 = c2 then Inr False else is_valid_loop a rest))"

definition is_valid_solution :: "CSPModel \<Rightarrow> assignment \<Rightarrow> error + bool" where
  "is_valid_solution csp a =
     (if \<not> is_complete csp a then Inr False else is_valid_loop a (constraints csp))"

text \<open>\<open>{var: colors.copy() for var, colors in self.domains.items()}\<close>\<close>

definition copy_domains :: "CSPModel \<Rightarrow> domain_map" where
  "copy_domains csp = map (\<lambda>(var, colors). (var, colors)) (domains csp)"

section \<open>Ordering heuristics (solver/heuristics.py)\<close>

text \<open>
  \<open>min_values\<close> starts at \<open>float('inf')\<close>: \<open>None\<close> stands for infinity, which every
  domain size is below.
\<close>

fun below :: "int \<Rightarrow> int option \<Rightarrow> bool" where
  "below n None = True"
| "below n (Some m) = (n < m)"

fun mrv_loop ::
  "assignment \<Rightarrow> domain_map \<Rightarrow> var list \<Rightarrow> int option \<Rightarrow> var option \<Rightarrow> error + var option"
where
  "mrv_loop a d [] min_values best_var = Inr best_var"
| "mrv_loop a d (v # rest) min_values best_var =
     (if \<not> contains a v then
        (case getitem d v of
           Inl e \<Rightarrow> Inl e
         | Inr dm \<Rightarrow>
             (let domain_size = int (length dm) in
              if below domain_size min_values
              then mrv_loop a d rest (Some domain_size) (Some v)
              else mrv_loop a d rest min_values best_var))
      else mrv_loop a d rest min_values best_var)"

definition mrv :: "CSPModel \<Rightarrow> assignment \<Rightarrow> domain_map \<Rightarrow> error + var option" where
  "mrv csp a d = mrv_loop a d (variables csp) None None"

text \<open>The number of neighbours that are not assigned\<close>

fun unassigned_degree :: "assignment \<Rightarrow> var list \<Rightarrow> int" where
  "unassigned_degree a [] = 0"
| "unassigned_degree a (neighbor # rest) =
     (if \<not> contains a neighbor then 1 + unassigned_degree a rest
      else unassigned_degree a rest)"

fun degree_loop ::
  "CSPModel \<Rightarrow> assignment \<Rightarrow> var list \<Rightarrow> int \<Rightarrow> var option \<Rightarrow> error + var option"
where
  "degree_loop csp a [] max_degree best_var = Inr best_var"
| "degree_loop csp a (v # rest) max_degree best_var =
     (if \<not> contains a v then
        (case get_neighbors csp v of
           Inl e \<Rightarrow> Inl e
         | Inr ns \<Rightarrow>
             (let degree = unassigned_degree a ns in
              if degree > max_degree
              then degree_loop csp a rest degree (Some v)
              else degree_loop csp a rest max_degree best_var))
      else degree_loop csp a rest max_degree best_var)"

definition degree_heuristic :: "CSPModel \<Rightarrow> assignment \<Rightarrow> domain_map \<Rightarrow> error + var option" where
  "degree_heuristic csp a d = degree_loop csp a (variables csp) (- 1) None"

fun candidates_loop ::
  "assignment \<Rightarrow> domain_map \<Rightarrow> var list \<Rightarrow> int option \<Rightarrow> var list \<Rightarrow> error + var list"
where
  "candidates_loop a d [] min_values candidates = Inr candidates"
| "candidates_loop a d (v # rest) min_values candidates =
     (if \<not> contains a v then
        (case getitem d v of
           Inl e \<Rightarrow> Inl e
         | Inr dm \<Rightarrow>
             (let domain_size = int (length dm) in
              if below domain_size min_values
              then candidates_loop a d rest (Some domain_size) [v]
              else if Some domain_size = min_values
              then candidates_loop a d rest min_values (candidates @ [v])
              else candidates_loop a d rest min_values candidates))
      else candidates_loop a d rest min_values candidates)"

fun tiebreak_loop ::
  "CSPModel \<Rightarrow> assignment \<Rightarrow> var list \<Rightarrow> int \<Rightarrow> var \<Rightarrow> error + var"
where
  "tiebreak_loop csp a [] max_degree best_var = Inr best_var"
| "tiebreak_loop csp a (v # rest) max_degree best_var =
     (case get_neighbors csp v of
        Inl e \<Rightarrow> Inl e
      | Inr ns \<Rightarrow>
          (let degree = unassigned_degree a ns in
           if degree > max_degree
           then tiebreak_loop csp a rest degree v
           else tiebreak_loop csp a rest max_degree best_var))"

definition mrv_with_degree_tiebreaker ::
  "CSPModel \<Rightarrow> assignment \<Rightarrow> domain_map \<Rightarrow> error + var option"
where
  "mrv_with_degree_tiebreaker csp a d =
     (case candidates_loop a d (variables csp) None [] of
        Inl e \<Rightarrow> Inl e
      | Inr candidates \<Rightarrow>
          (case candidates of
             [] \<Rightarrow> Inl IndexError
           | [c] \<Rightarrow> Inr (Some c)
           | c # _ \<Rightarrow>
               (case tiebreak_loop csp a candidates (- 1) c of
                  Inl e \<Rightarrow> Inl e
                | Inr best \<Rightarrow> Inr (Some best))))"

text \<open>
  The value orderings receive what variable selection returned, which is \<open>None\<close> when no
  variable was found; \<open>None\<close> is not a key of the domains, so reading its domain raises.
\<close>

fun eliminated_count :: "colour \<Rightarrow> assignment \<Rightarrow> domain_map \<Rightarrow> var list \<Rightarrow> error + int" where
  "eliminated_count val a d [] = Inr 0"
| "eliminated_count val a d (neighbor # rest) =
     (if \<not> contains a neighbor then
        (case getitem d neighbor of
           Inl e \<Rightarrow> Inl e
         | Inr dm \<Rightarrow>
             (case eliminated_count val a d rest of
                Inl e \<Rightarrow> Inl e
              | Inr n \<Rightarrow> Inr (if val \<in> set dm then 1 + n else n)))
      else eliminated_count val a d rest)"

fun lcv_scores ::
  "CSPModel \<Rightarrow> var \<Rightarrow> assignment \<Rightarrow> domain_map \<Rightarrow> colour list \<Rightarrow> error + (colour \<times> int) list"
where
  "lcv_scores csp variable a d [] = Inr []"
| "lcv_scores csp variable a d (val # rest) =
     (case get_neighbors csp variable of
        Inl e \<Rightarrow> Inl e
      | Inr ns \<Rightarrow>
          (case eliminated_count val a d ns of
             Inl e \<Rightarrow> Inl e
           | Inr eliminated \<Rightarrow>
               (case lcv_scores csp variable a d rest of
                  Inl e \<Rightarrow> Inl e
                | Inr scores \<Rightarrow> Inr ((val, eliminated) # scores))))"

definition lcv ::
  "CSPModel \<Rightarrow> var option \<Rightarrow> assignment \<Rightarrow> domain_map \<Rightarrow> error + colour list"
where
  "lcv csp variable a d =
     (case variable of
        None \<Rightarrow> Inl KeyError
      | Some v \<Rightarrow>
          (case getitem d v of
             Inl e \<Rightarrow> Inl e
           | Inr dm \<Rightarrow>
               (case lcv_scores csp v a d dm of
                  Inl e \<Rightarrow> Inl e
                | Inr value_scores \<Rightarrow> Inr (map fst (sort_key snd value_scores)))))"

definition no_order ::
  "CSPModel \<Rightarrow> var option \<Rightarrow> assignment \<Rightarrow> domain_map \<Rightarrow> error + colour list"
where
  "no_order csp variable a d =
     (case variable of
        None \<Rightarrow> Inl KeyError
      | Some v \<Rightarrow> getitem d v)"

section \<open>Inference strategies (solver/inference.py)\<close>

text \<open>
  An inference returns \<open>False\<close> on a domain wipeout and the number of pruned values
  otherwise. It mutates the domains it is given, so the model returns them as well, also
  on a wipeout.
\<close>

datatype infer_result = Wipeout | Pruned int

fun fc_loop ::
  "colour \<Rightarrow> assignment \<Rightarrow> var list \<Rightarrow> int \<Rightarrow> domain_map \<Rightarrow> error + (infer_result \<times> domain_map)"
where
  "fc_loop val a [] pruned d = Inr (Pruned pruned, d)"
| "fc_loop val a (neighbor # rest) pruned d =
     (if \<not> contains a neighbor then
        (case getitem d neighbor of
           Inl e \<Rightarrow> Inl e
         | Inr dm \<Rightarrow>
             if val \<in> set dm then
               (case list_remove dm val of
                  Inl e \<Rightarrow> Inl e
                | Inr dm' \<Rightarrow>
                    (let d' = setitem d neighbor dm' in
                     if length dm' = 0 then Inr (Wipeout, d')
                     else fc_loop val a rest (pruned + 1) d'))
             else fc_loop val a rest pruned d)
      else fc_loop val a rest pruned d)"

definition ForwardChecking_infer ::
  "CSPModel \<Rightarrow> var \<Rightarrow> colour \<Rightarrow> assignment \<Rightarrow> domain_map \<Rightarrow> error + (infer_result \<times> domain_map)"
where
  "ForwardChecking_infer csp variable val a d =
     (case get_neighbors csp variable of
        Inl e \<Rightarrow> Inl e
      | Inr ns \<Rightarrow> fc_loop val a ns 0 d)"

definition get_all_arcs :: "CSPModel \<Rightarrow> (var \<times> var) list" where
  "get_all_arcs csp = concat (map (\<lambda>(var1, var2). [(var1, var2), (var2, var1)]) (constraints csp))"

fun has_support :: "colour \<Rightarrow> colour list \<Rightarrow> bool" where
  "has_support x [] = False"
| "has_support x (y # rest) = (if x \<noteq> y then True else has_support x rest)"

text \<open>The first loop of \<open>revise\<close>: the values of \<open>Xi\<close> without support in \<open>Xj\<close>\<close>

fun values_to_remove :: "domain_map \<Rightarrow> var \<Rightarrow> colour list \<Rightarrow> error + colour list" where
  "values_to_remove d xj [] = Inr []"
| "values_to_remove d xj (x # rest) =
     (case getitem d xj of
        Inl e \<Rightarrow> Inl e
      | Inr dj \<Rightarrow>
          (case values_to_remove d xj rest of
             Inl e \<Rightarrow> Inl e
           | Inr vs \<Rightarrow> Inr (if has_support x dj then vs else x # vs)))"

text \<open>The second loop of \<open>revise\<close>: \<open>domains[xi].remove(x)\<close> for each of them\<close>

fun remove_values :: "var \<Rightarrow> colour list \<Rightarrow> domain_map \<Rightarrow> error + domain_map" where
  "remove_values xi [] d = Inr d"
| "remove_values xi (x # rest) d =
     (case getitem d xi of
        Inl e \<Rightarrow> Inl e
      | Inr di \<Rightarrow>
          (case list_remove di x of
             Inl e \<Rightarrow> Inl e
           | Inr di' \<Rightarrow> remove_values xi rest (setitem d xi di')))"

definition revise :: "domain_map \<Rightarrow> var \<Rightarrow> var \<Rightarrow> error + (bool \<times> domain_map)" where
  "revise d xi xj =
     (case getitem d xi of
        Inl e \<Rightarrow> Inl e
      | Inr di \<Rightarrow>
          (case values_to_remove d xj di of
             Inl e \<Rightarrow> Inl e
           | Inr vs \<Rightarrow>
               (case remove_values xi vs d of
                  Inl e \<Rightarrow> Inl e
                | Inr d' \<Rightarrow> Inr (vs \<noteq> [], d'))))"

text \<open>
  \<open>if assignment and xi in assignment\<close>: the assignment is optional, and an empty dict is
  falsy.
\<close>

definition skip_assigned :: "assignment option \<Rightarrow> var \<Rightarrow> bool" where
  "skip_assigned a xi = (case a of None \<Rightarrow> False | Some asg \<Rightarrow> asg \<noteq> [] \<and> contains asg xi)"

text \<open>
  The work queue of \<open>enforce\<close> is a \<open>while\<close> loop. It ends because a revision that
  reports a change has shrunk a domain, and only such a revision makes the queue longer.
\<close>

lemma total_size_setitem:
  "map_of d k = Some old \<Longrightarrow> total_size (setitem d k new) = total_size d - int (length old) + int (length new)"
  by (induction d) (auto simp: total_size_def setitem_def)

lemma length_remove1_int:
  "x \<in> set xs \<Longrightarrow> int (length (remove1 x xs)) = int (length xs) - 1"
  by (induction xs) auto

lemma remove_values_size:
  "remove_values xi vs d = Inr d' \<Longrightarrow> total_size d' = total_size d - int (length vs)"
proof (induction vs arbitrary: d)
  case Nil then show ?case by simp
next
  case (Cons x rest)
  then show ?case
    by (auto simp: getitem_def list_remove_def total_size_setitem length_remove1_int split: option.splits if_splits sum.splits)
qed

lemma revise_size:
  assumes "revise d xi xj = Inr (b, d')"
  shows "(b \<longrightarrow> total_size d' < total_size d) \<and> (\<not> b \<longrightarrow> d' = d)"
proof -
  from assms obtain vs where
    vs: "remove_values xi vs d = Inr d'" and b: "b = (vs \<noteq> [])"
    by (auto simp: revise_def split: sum.splits)
  show ?thesis
  proof (cases vs)
    case Nil with vs b show ?thesis by simp
  next
    case (Cons v rest)
    with remove_values_size[OF vs] b show ?thesis by simp
  qed
qed

lemma total_size_nonneg: "0 \<le> total_size d"
  by (induction d) (auto simp: total_size_def)

function enforce_loop ::
  "CSPModel \<Rightarrow> assignment option \<Rightarrow> (var \<times> var) list \<Rightarrow> domain_map \<Rightarrow> error + (bool \<times> domain_map)"
where
  "enforce_loop csp a [] d = Inr (True, d)"
| "enforce_loop csp a ((xi, xj) # queue) d =
     (if skip_assigned a xi then enforce_loop csp a queue d
      else
        (case revise d xi xj of
           Inl e \<Rightarrow> Inl e
         | Inr (revised, d') \<Rightarrow>
             if revised then
               (case getitem d' xi of
                  Inl e \<Rightarrow> Inl e
                | Inr di \<Rightarrow>
                    if length di = 0 then Inr (False, d')
                    else
                      (case get_neighbors csp xi of
                         Inl e \<Rightarrow> Inl e
                       | Inr ns \<Rightarrow>
                           enforce_loop csp a
                             (queue @ map (\<lambda>xk. (xk, xi)) (filter (\<lambda>xk. xk \<noteq> xj) ns)) d'))
             else enforce_loop csp a queue d'))"
  by pat_completeness auto
termination enforce_loop
proof (relation "measures [\<lambda>(csp, a, queue, d). nat (total_size d), \<lambda>(csp, a, queue, d). length queue]", goal_cases)
  case 1 show ?case by simp
next
  case (2 csp a xi xj queue d) then show ?case by simp
next
  case (3 csp a xi xj queue d x2 revised d' di ns)
  then have "revise d xi xj = Inr (True, d')" by simp
  from revise_size[OF this] total_size_nonneg[of d'] show ?case by simp
next
  case (4 csp a xi xj queue d x2 revised d')
  then have "revise d xi xj = Inr (False, d')" by simp
  from revise_size[OF this] show ?case by simp
qed

definition enforce ::
  "CSPModel \<Rightarrow> domain_map \<Rightarrow> assignment option \<Rightarrow> error + (bool \<times> domain_map)"
where
  "enforce csp d a = enforce_loop csp a (get_all_arcs csp) d"

text \<open>The forward-checking pass at the start of \<open>AC3.infer\<close>, which counts nothing\<close>

fun ac3_fc_loop ::
  "colour \<Rightarrow> assignment \<Rightarrow> var list \<Rightarrow> domain_map \<Rightarrow> error + (bool \<times> domain_map)"
where
  "ac3_fc_loop val a [] d = Inr (True, d)"
| "ac3_fc_loop val a (neighbor # rest) d =
     (if \<not> contains a neighbor then
        (case getitem d neighbor of
           Inl e \<Rightarrow> Inl e
         | Inr dm \<Rightarrow>
             if val \<in> set dm then
               (case list_remove dm val of
                  Inl e \<Rightarrow> Inl e
                | Inr dm' \<Rightarrow>
                    (let d' = setitem d neighbor dm' in
                     if length dm' = 0 then Inr (False, d')
                     else ac3_fc_loop val a rest d'))
             else ac3_fc_loop val a rest d)
      else ac3_fc_loop val a rest d)"

definition AC3_infer ::
  "CSPModel \<Rightarrow> var \<Rightarrow> colour \<Rightarrow> assignment \<Rightarrow> domain_map \<Rightarrow> error + (infer_result \<times> domain_map)"
where
  "AC3_infer csp variable val a d =
     (let initial_sizes = total_size d in
      case get_neighbors csp variable of
        Inl e \<Rightarrow> Inl e
      | Inr ns \<Rightarrow>
          (case ac3_fc_loop val a ns d of
             Inl e \<Rightarrow> Inl e
           | Inr (ok, d1) \<Rightarrow>
               if \<not> ok then Inr (Wipeout, d1)
               else
                 (case enforce csp d1 (Some a) of
                    Inl e \<Rightarrow> Inl e
                  | Inr (consistent, d2) \<Rightarrow>
                      if \<not> consistent then Inr (Wipeout, d2)
                      else
                        (let final_sizes = total_size d2 in
                         Inr (Pruned (initial_sizes - final_sizes), d2)))))"


definition ac3_inference ::
  "CSPModel \<Rightarrow> var \<Rightarrow> colour \<Rightarrow> assignment \<Rightarrow> domain_map \<Rightarrow> error + (infer_result \<times> domain_map)"
where
  "ac3_inference csp variable val a d = AC3_infer csp variable val a d"

section \<open>The backtracking solver (solver/backtracking.py)\<close>

type_synonym inference_fn =
  "CSPModel \<Rightarrow> var \<Rightarrow> colour \<Rightarrow> assignment \<Rightarrow> domain_map \<Rightarrow> error + (infer_result \<times> domain_map)"
type_synonym select_fn =
  "CSPModel \<Rightarrow> assignment \<Rightarrow> domain_map \<Rightarrow> error + var option"
type_synonym order_fn =
  "CSPModel \<Rightarrow> var option \<Rightarrow> assignment \<Rightarrow> domain_map \<Rightarrow> error + colour list"

record SolverStats =
  nodes_explored :: int
  backtracks :: int
  time_elapsed :: real
  inference_calls :: int
  pruned_values :: int
  solution_found :: bool

definition new_stats :: SolverStats where
  "new_stats =
     \<lparr>nodes_explored = 0, backtracks = 0, time_elapsed = 0, inference_calls = 0,
      pruned_values = 0, solution_found = False\<rparr>"

text \<open>The strategies are optional callables, kept as function values.\<close>

record BacktrackingSolver =
  inference :: "inference_fn option"
  select_variable :: "select_fn option"
  order_values :: "order_fn option"
  use_forward_checking :: bool
  use_ac3 :: bool
  max_nodes :: int
  stats :: SolverStats

text \<open>
  What a search mutates: the statistics of the solver, and the assignment and the domains
  that every activation of \<open>_backtrack\<close> shares.
\<close>

record search_state =
  s_stats :: SolverStats
  s_assignment :: assignment
  s_domains :: domain_map

text \<open>
  A call returns a value, raises, or (in the model only) runs out of the fuel that bounds
  the depth of the recursion.
\<close>

datatype 'a outcome = OutOfFuel | Raise error | Return 'a

fun first_unassigned :: "assignment \<Rightarrow> var list \<Rightarrow> var option" where
  "first_unassigned a [] = None"
| "first_unassigned a (v # rest) = (if \<not> contains a v then Some v else first_unassigned a rest)"

definition solver_select_variable ::
  "BacktrackingSolver \<Rightarrow> CSPModel \<Rightarrow> assignment \<Rightarrow> domain_map \<Rightarrow> error + var option"
where
  "solver_select_variable slv csp a d =
     (case select_variable slv of
        Some f \<Rightarrow> f csp a d
      | None \<Rightarrow> Inr (first_unassigned a (variables csp)))"

definition solver_order_values ::
  "BacktrackingSolver \<Rightarrow> CSPModel \<Rightarrow> var option \<Rightarrow> assignment \<Rightarrow> domain_map \<Rightarrow> error + colour list"
where
  "solver_order_values slv csp variable a d =
     (case order_values slv of
        Some f \<Rightarrow> f csp variable a d
      | None \<Rightarrow> (case variable of None \<Rightarrow> Inl KeyError | Some v \<Rightarrow> getitem d v))"

text \<open>
  The inference step of one candidate value: the call, the count of calls, and what the
  result does to \<open>inference_ok\<close> and to the count of pruned values.
\<close>

definition run_inference ::
  "BacktrackingSolver \<Rightarrow> CSPModel \<Rightarrow> var \<Rightarrow> colour \<Rightarrow> search_state \<Rightarrow> error + (bool \<times> search_state)"
where
  "run_inference slv csp v val st =
     (case inference slv of
        None \<Rightarrow> Inr (True, st)
      | Some f \<Rightarrow>
          (case f csp v val (s_assignment st) (s_domains st) of
             Inl e \<Rightarrow> Inl e
           | Inr (inference_result, d') \<Rightarrow>
               (let st' = st\<lparr>s_domains := d',
                             s_stats := (s_stats st)\<lparr>inference_calls := inference_calls (s_stats st) + 1\<rparr>\<rparr>
                in case inference_result of
                     Wipeout \<Rightarrow> Inr (False, st')
                   | Pruned n \<Rightarrow>
                       Inr (True, st'\<lparr>s_stats := (s_stats st')\<lparr>pruned_values := pruned_values (s_stats st') + n\<rparr>\<rparr>))))"

text \<open>
  The loop over the candidate values of one activation. \<open>recurse\<close> is the recursive call of
  \<open>_backtrack\<close>.
\<close>

fun try_values ::
  "(search_state \<Rightarrow> (assignment option \<times> search_state) outcome) \<Rightarrow>
   BacktrackingSolver \<Rightarrow> CSPModel \<Rightarrow> var \<Rightarrow> colour list \<Rightarrow> search_state \<Rightarrow>
   (assignment option \<times> search_state) outcome"
where
  "try_values recurse slv csp v [] st = Return (None, st)"
| "try_values recurse slv csp v (val # rest) st =
     (case is_consistent csp v val (s_assignment st) of
        Inl e \<Rightarrow> Raise e
      | Inr consistent \<Rightarrow>
          if \<not> consistent then try_values recurse slv csp v rest st
          else
            (let st1 = st\<lparr>s_assignment := setitem (s_assignment st) v val\<rparr>;
                 saved_domains = s_domains st1
             in case run_inference slv csp v val st1 of
                  Inl e \<Rightarrow> Raise e
                | Inr (inference_ok, st2) \<Rightarrow>
                    (case (if inference_ok then recurse st2 else Return (None, st2)) of
                       OutOfFuel \<Rightarrow> OutOfFuel
                     | Raise e \<Rightarrow> Raise e
                     | Return (Some result, st3) \<Rightarrow> Return (Some result, st3)
                     | Return (None, st3) \<Rightarrow>
                         (case delitem (s_assignment st3) v of
                            Inl e \<Rightarrow> Raise e
                          | Inr a' \<Rightarrow>
                              try_values recurse slv csp v rest
                                (st3\<lparr>s_assignment := a',
                                     s_domains := dict_update (s_domains st3) saved_domains,
                                     s_stats := (s_stats st3)\<lparr>backtracks := backtracks (s_stats st3) + 1\<rparr>\<rparr>)))))"

text \<open>
  \<open>_backtrack\<close>. When variable selection returned \<open>None\<close> and the value ordering still
  produced values, the first \<open>is_consistent\<close> asks the graph for the neighbours of
  \<open>None\<close>, which networkx refuses.
\<close>

primrec backtrack ::
  "nat \<Rightarrow> BacktrackingSolver \<Rightarrow> CSPModel \<Rightarrow> search_state \<Rightarrow> (assignment option \<times> search_state) outcome"
where
  "backtrack 0 slv csp st = OutOfFuel"
| "backtrack (Suc fuel) slv csp st =
     (if nodes_explored (s_stats st) \<ge> max_nodes slv then Return (None, st)
      else if is_complete csp (s_assignment st) then Return (Some (s_assignment st), st)
      else
        (let st1 = st\<lparr>s_stats := (s_stats st)\<lparr>nodes_explored := nodes_explored (s_stats st) + 1\<rparr>\<rparr>
         in case solver_select_variable slv csp (s_assignment st1) (s_domains st1) of
              Inl e \<Rightarrow> Raise e
            | Inr variable \<Rightarrow>
                (case solver_order_values slv csp variable (s_assignment st1) (s_domains st1) of
                   Inl e \<Rightarrow> Raise e
                 | Inr vals \<Rightarrow>
                     (case variable of
                        None \<Rightarrow> if vals = [] then Return (None, st1) else Raise NetworkXError
                      | Some v \<Rightarrow> try_values (backtrack fuel slv csp) slv csp v vals st1))))"

text \<open>
  \<open>solve\<close>. The two readings of the clock are parameters. The result carries the solver
  with the statistics of this call.
\<close>

definition solve ::
  "nat \<Rightarrow> real \<Rightarrow> real \<Rightarrow> BacktrackingSolver \<Rightarrow> CSPModel \<Rightarrow>
   (assignment option \<times> BacktrackingSolver) outcome"
where
  "solve fuel start_time end_time slv csp =
     (let slv0 = slv\<lparr>stats := new_stats\<rparr>;
          st0 = \<lparr>s_stats = stats slv0, s_assignment = [], s_domains = copy_domains csp\<rparr>
      in case backtrack fuel slv0 csp st0 of
           OutOfFuel \<Rightarrow> OutOfFuel
         | Raise e \<Rightarrow> Raise e
         | Return (result, st) \<Rightarrow>
             Return (result,
               slv0\<lparr>stats := (s_stats st)\<lparr>time_elapsed := end_time - start_time,
                                          solution_found := (result \<noteq> None)\<rparr>\<rparr>))"

definition get_stats :: "BacktrackingSolver \<Rightarrow> SolverStats" where
  "get_stats slv = stats slv"

section \<open>Dictionaries and lists\<close>

lemma map_of_setitem: "map_of (setitem d k v) = (map_of d)(k \<mapsto> v)"
  by (simp add: setitem_def update_conv')

lemma keys_setitem: "map_of d k = Some old \<Longrightarrow> map fst (setitem d k v) = map fst d"
  by (induction d) (auto simp: setitem_def)

lemma getitem_Inr: "(getitem d k = Inr v) = (map_of d k = Some v)"
  by (simp add: getitem_def split: option.splits)

lemma has_support_iff: "has_support x ys = (\<exists>y\<in>set ys. x \<noteq> y)"
  by (induction ys) auto

lemma values_to_remove_filter:
  "getitem d xj = Inr dj \<Longrightarrow>
   values_to_remove d xj di = Inr (filter (\<lambda>x. \<not> has_support x dj) di)"
  by (induction di) auto

lemma remove_values_filter:
  assumes "map_of d xi = Some (pre @ rest)" "\<forall>x\<in>set pre. \<not> P x"
  shows "\<exists>d'. remove_values xi (filter P rest) d = Inr d' \<and>
           map_of d' = (map_of d)(xi \<mapsto> pre @ filter (\<lambda>x. \<not> P x) rest) \<and>
           map fst d' = map fst d"
  using assms
proof (induction rest arbitrary: pre d)
  case Nil
  then show ?case by (auto simp: fun_upd_idem)
next
  case (Cons x r)
  show ?case
  proof (cases "P x")
    case True
    let ?d1 = "setitem d xi (pre @ r)"
    from True Cons.prems have notin: "x \<notin> set pre" by auto
    have m1: "map_of ?d1 xi = Some (pre @ r)" by (simp add: map_of_setitem)
    from Cons.IH[OF m1 Cons.prems(2)] obtain d' where
      d': "remove_values xi (filter P r) ?d1 = Inr d'"
          "map_of d' = (map_of ?d1)(xi \<mapsto> pre @ filter (\<lambda>x. \<not> P x) r)"
          "map fst d' = map fst ?d1" by blast
    have "remove_values xi (filter P (x # r)) d = Inr d'"
      using True Cons.prems(1) notin d'(1)
      by (simp add: getitem_def list_remove_def remove1_append)
    moreover have "map_of d' = (map_of d)(xi \<mapsto> pre @ filter (\<lambda>x. \<not> P x) (x # r))"
      using d'(2) True by (simp add: map_of_setitem)
    moreover have "map fst d' = map fst d"
      using d'(3) keys_setitem[OF Cons.prems(1)] by simp
    ultimately show ?thesis by blast
  next
    case False
    have m1: "map_of d xi = Some ((pre @ [x]) @ r)" using Cons.prems(1) by simp
    have p1: "\<forall>y\<in>set (pre @ [x]). \<not> P y" using Cons.prems(2) False by auto
    from Cons.IH[OF m1 p1] False show ?thesis by simp
  qed
qed

lemma revise_result:
  assumes "getitem d xi = Inr di" "getitem d xj = Inr dj"
  shows "\<exists>d'. revise d xi xj = Inr (filter (\<lambda>x. \<not> has_support x dj) di \<noteq> [], d') \<and>
           map_of d' = (map_of d)(xi \<mapsto> filter (\<lambda>x. has_support x dj) di) \<and>
           map fst d' = map fst d"
proof -
  have m: "map_of d xi = Some ([] @ di)" using assms(1) by (simp add: getitem_Inr)
  from remove_values_filter[OF m, of "\<lambda>x. \<not> has_support x dj"]
  obtain d' where d': "remove_values xi (filter (\<lambda>x. \<not> has_support x dj) di) d = Inr d'"
     "map_of d' = (map_of d)(xi \<mapsto> filter (\<lambda>x. has_support x dj) di)"
     "map fst d' = map fst d" by auto
  then show ?thesis
    using assms by (auto simp: revise_def values_to_remove_filter)
qed

section \<open>AC-3 revise\<close>

text \<open>
  Claim C7, with the arc between two distinct variables. For domains in which \<open>Xi\<close> and
  \<open>Xj\<close> have a domain and that of \<open>Xj\<close> is not empty, \<open>revise(Xi, Xj)\<close> removes from the
  domain of \<open>Xi\<close> exactly the values \<open>x\<close> for which the domain of \<open>Xj\<close> is the singleton
  \<open>{x}\<close> (which is when no value of \<open>Xj\<close> differs from \<open>x\<close>), keeps the order of the others,
  leaves the domain of every variable other than \<open>Xi\<close> and the keys as they are, so the
  domain of \<open>Xj\<close> is unchanged when \<open>Xi\<close> and \<open>Xj\<close> differ, and returns true exactly when a
  value was removed. On the arc \<open>(X, X)\<close> of a self-pair the domain of \<open>Xj\<close> is the one that
  is revised.
\<close>

theorem revise_spec:
  assumes "getitem d xi = Inr di" and "getitem d xj = Inr dj" and "dj \<noteq> []"
  shows "\<exists>d'. revise d xi xj = Inr (filter (\<lambda>x. set dj = {x}) di \<noteq> [], d') \<and>
           getitem d' xi = Inr (filter (\<lambda>x. set dj \<noteq> {x}) di) \<and>
           (\<forall>k. k \<noteq> xi \<longrightarrow> getitem d' k = getitem d k) \<and>
           (xi \<noteq> xj \<longrightarrow> getitem d' xj = Inr dj) \<and>
           map fst d' = map fst d \<and>
           (\<forall>x. (set dj = {x}) = (\<not> (\<exists>y\<in>set dj. y \<noteq> x)))"
proof -
  have eq: "\<And>x. (\<not> has_support x dj) = (set dj = {x})"
    using assms(3) by (cases dj) (auto simp: has_support_iff)
  from revise_result[OF assms(1,2)] obtain d' where
    d': "revise d xi xj = Inr (filter (\<lambda>x. \<not> has_support x dj) di \<noteq> [], d')"
        "map_of d' = (map_of d)(xi \<mapsto> filter (\<lambda>x. has_support x dj) di)"
        "map fst d' = map fst d" by blast
  have f1: "filter (\<lambda>x. \<not> has_support x dj) di = filter (\<lambda>x. set dj = {x}) di"
    using eq by simp
  have f2: "filter (\<lambda>x. has_support x dj) di = filter (\<lambda>x. set dj \<noteq> {x}) di"
    by (rule filter_cong) (auto simp: eq[symmetric])
  have "(\<forall>x. (set dj = {x}) = (\<not> (\<exists>y\<in>set dj. y \<noteq> x)))"
    using assms(3) by (cases dj) auto
  moreover have "xi \<noteq> xj \<longrightarrow> getitem d' xj = Inr dj"
    using d'(2) assms(2) by (simp add: getitem_def)
  ultimately show ?thesis using d' f1 f2
    by (auto simp: getitem_def)
qed

theorem revise_spec_witness:
  "\<exists>d'. revise [(''A'', [''Red'']), (''B'', [''Red'', ''Green''])] ''B'' ''A'' = Inr (True, d') \<and>
        getitem d' ''B'' = Inr [''Green''] \<and> getitem d' ''A'' = Inr [''Red'']"
proof -
  let ?d = "[(''A'', [''Red'']), (''B'', [''Red'', ''Green''])]"
  have h1: "getitem ?d ''B'' = Inr [''Red'', ''Green'']" by (simp add: getitem_def)
  have h2: "getitem ?d ''A'' = Inr [''Red'']" by (simp add: getitem_def)
  have h3: "[''Red''] \<noteq> ([] :: colour list)" by simp
  from revise_spec[OF h1 h2 h3] obtain d' where
    "revise ?d ''B'' ''A'' = Inr (filter (\<lambda>x. set [''Red''] = {x}) [''Red'', ''Green''] \<noteq> [], d')"
    "getitem d' ''B'' = Inr (filter (\<lambda>x. set [''Red''] \<noteq> {x}) [''Red'', ''Green''])"
    "\<forall>k. k \<noteq> ''B'' \<longrightarrow> getitem d' k = getitem ?d k" by blast
  then show ?thesis using h2 by auto
qed

text \<open>
  Claim C7 as it is worded, for every \<open>Xi\<close> and \<open>Xj\<close>, fails on the arc from a variable to
  itself, which \<open>get_all_arcs\<close> produces for a constraint \<open>(A, A)\<close>: the domain of \<open>Xj\<close> is
  \<open>[Red]\<close>, not empty, and \<open>revise(A, A)\<close> empties it.
\<close>

theorem revise_self_arc:
  "getitem [(''A'', [''Red''])] ''A'' = Inr [''Red''] \<and>
   revise [(''A'', [''Red''])] ''A'' ''A'' = Inr (True, [(''A'', [])]) \<and>
   getitem [(''A'', [])] ''A'' = Inr ([] :: colour list) \<and>
   get_all_arcs \<lparr>variables = [''A''], domains = [(''A'', [''Red''])], constraints = [(''A'', ''A'')]\<rparr> =
     [(''A'', ''A''), (''A'', ''A'')]"
  by (simp add: revise_def getitem_def list_remove_def setitem_def get_all_arcs_def)

section \<open>Minimum remaining values\<close>

text \<open>The size of the current domain of a variable, \<open>len(domains[u])\<close>, for the proofs\<close>

definition dsize :: "domain_map \<Rightarrow> var \<Rightarrow> int" where
  "dsize d u = (case map_of d u of None \<Rightarrow> 0 | Some vs \<Rightarrow> int (length vs))"

lemma mrv_loop_spec:
  assumes "\<forall>u\<in>set vs. \<not> contains a u \<longrightarrow> contains d u"
  shows "\<exists>r. mrv_loop a d vs mn best = Inr r \<and>
           ((\<forall>u\<in>set vs. \<not> contains a u \<longrightarrow> \<not> below (dsize d u) mn) \<longrightarrow> r = best) \<and>
           ((\<exists>u\<in>set vs. \<not> contains a u \<and> below (dsize d u) mn) \<longrightarrow>
              (\<exists>pre v post. vs = pre @ v # post \<and> r = Some v \<and> \<not> contains a v \<and>
                 below (dsize d v) mn \<and>
                 (\<forall>u\<in>set pre. \<not> contains a u \<longrightarrow> dsize d v < dsize d u) \<and>
                 (\<forall>u\<in>set post. \<not> contains a u \<longrightarrow> dsize d v \<le> dsize d u)))"
  using assms
proof (induction vs arbitrary: mn best)
  case Nil
  then show ?case by simp
next
  case (Cons x rest)
  have restok: "\<forall>u\<in>set rest. \<not> contains a u \<longrightarrow> contains d u" using Cons.prems by simp
  show ?case
  proof (cases "contains a x")
    case True
    from Cons.IH[OF restok, of mn best] obtain r where
      r: "mrv_loop a d rest mn best = Inr r"
         "(\<forall>u\<in>set rest. \<not> contains a u \<longrightarrow> \<not> below (dsize d u) mn) \<longrightarrow> r = best"
         "(\<exists>u\<in>set rest. \<not> contains a u \<and> below (dsize d u) mn) \<longrightarrow>
              (\<exists>pre v post. rest = pre @ v # post \<and> r = Some v \<and> \<not> contains a v \<and>
                 below (dsize d v) mn \<and>
                 (\<forall>u\<in>set pre. \<not> contains a u \<longrightarrow> dsize d v < dsize d u) \<and>
                 (\<forall>u\<in>set post. \<not> contains a u \<longrightarrow> dsize d v \<le> dsize d u))" by blast
    have run: "mrv_loop a d (x # rest) mn best = Inr r" using True r(1) by simp
    have A: "(\<forall>u\<in>set (x # rest). \<not> contains a u \<longrightarrow> \<not> below (dsize d u) mn) \<longrightarrow> r = best"
      using r(2) by simp
    have B: "(\<exists>u\<in>set (x # rest). \<not> contains a u \<and> below (dsize d u) mn) \<longrightarrow>
              (\<exists>pre v post. x # rest = pre @ v # post \<and> r = Some v \<and> \<not> contains a v \<and>
                 below (dsize d v) mn \<and>
                 (\<forall>u\<in>set pre. \<not> contains a u \<longrightarrow> dsize d v < dsize d u) \<and>
                 (\<forall>u\<in>set post. \<not> contains a u \<longrightarrow> dsize d v \<le> dsize d u))"
    proof
      assume "\<exists>u\<in>set (x # rest). \<not> contains a u \<and> below (dsize d u) mn"
      with True have "\<exists>u\<in>set rest. \<not> contains a u \<and> below (dsize d u) mn" by auto
      with r(3) obtain pre v post where pv: "rest = pre @ v # post" "r = Some v" "\<not> contains a v"
        "below (dsize d v) mn" "\<forall>u\<in>set pre. \<not> contains a u \<longrightarrow> dsize d v < dsize d u"
        "\<forall>u\<in>set post. \<not> contains a u \<longrightarrow> dsize d v \<le> dsize d u" by blast
      have "x # rest = (x # pre) @ v # post" using pv(1) by simp
      moreover have "\<forall>u\<in>set (x # pre). \<not> contains a u \<longrightarrow> dsize d v < dsize d u"
        using pv(5) True by simp
      ultimately show "\<exists>pre v post. x # rest = pre @ v # post \<and> r = Some v \<and> \<not> contains a v \<and>
                 below (dsize d v) mn \<and>
                 (\<forall>u\<in>set pre. \<not> contains a u \<longrightarrow> dsize d v < dsize d u) \<and>
                 (\<forall>u\<in>set post. \<not> contains a u \<longrightarrow> dsize d v \<le> dsize d u)"
        using pv(2,3,4,6) by blast
    qed
    from run A B show ?thesis by blast
  next
    case False
    with Cons.prems obtain dx where dx: "map_of d x = Some dx"
      by (auto simp: contains_def)
    have sx: "dsize d x = int (length dx)" using dx by (simp add: dsize_def)
    show ?thesis
    proof (cases "below (dsize d x) mn")
      case True
      let ?mn' = "Some (dsize d x)"
      from Cons.IH[OF restok, of ?mn' "Some x"] obtain r where
        r: "mrv_loop a d rest ?mn' (Some x) = Inr r"
         "(\<forall>u\<in>set rest. \<not> contains a u \<longrightarrow> \<not> below (dsize d u) ?mn') \<longrightarrow> r = Some x"
         "(\<exists>u\<in>set rest. \<not> contains a u \<and> below (dsize d u) ?mn') \<longrightarrow>
              (\<exists>pre v post. rest = pre @ v # post \<and> r = Some v \<and> \<not> contains a v \<and>
                 below (dsize d v) ?mn' \<and>
                 (\<forall>u\<in>set pre. \<not> contains a u \<longrightarrow> dsize d v < dsize d u) \<and>
                 (\<forall>u\<in>set post. \<not> contains a u \<longrightarrow> dsize d v \<le> dsize d u))" by blast
      have run: "mrv_loop a d (x # rest) mn best = Inr r"
        using False True dx sx r(1) by (simp add: getitem_def)
      have A: "(\<forall>u\<in>set (x # rest). \<not> contains a u \<longrightarrow> \<not> below (dsize d u) mn) \<longrightarrow> r = best"
        using False True by auto
      have "\<exists>pre v post. x # rest = pre @ v # post \<and> r = Some v \<and> \<not> contains a v \<and>
                 below (dsize d v) mn \<and>
                 (\<forall>u\<in>set pre. \<not> contains a u \<longrightarrow> dsize d v < dsize d u) \<and>
                 (\<forall>u\<in>set post. \<not> contains a u \<longrightarrow> dsize d v \<le> dsize d u)"
      proof (cases "\<exists>u\<in>set rest. \<not> contains a u \<and> below (dsize d u) ?mn'")
        case True
        with r(3) obtain pre v post where pv: "rest = pre @ v # post" "r = Some v" "\<not> contains a v"
          "below (dsize d v) ?mn'" "\<forall>u\<in>set pre. \<not> contains a u \<longrightarrow> dsize d v < dsize d u"
          "\<forall>u\<in>set post. \<not> contains a u \<longrightarrow> dsize d v \<le> dsize d u" by blast
        have lt: "dsize d v < dsize d x" using pv(4) by simp
        have b: "below (dsize d v) mn" using lt \<open>below (dsize d x) mn\<close> by (cases mn) auto
        have "x # rest = (x # pre) @ v # post" using pv(1) by simp
        moreover have "\<forall>u\<in>set (x # pre). \<not> contains a u \<longrightarrow> dsize d v < dsize d u"
          using pv(5) lt by simp
        ultimately show ?thesis using pv(2,3,6) b by blast
      next
        case nolower: False
        with r(2) have rx: "r = Some x" by blast
        have "x # rest = [] @ x # rest" by simp
        moreover have "\<forall>u\<in>set rest. \<not> contains a u \<longrightarrow> dsize d x \<le> dsize d u"
          using nolower by auto
        ultimately show ?thesis using rx False True by fastforce
      qed
      with run A show ?thesis by blast
    next
      case nb: False
      then obtain m where m: "mn = Some m" "m \<le> dsize d x" by (cases mn) auto
      from Cons.IH[OF restok, of mn best] obtain r where
        r: "mrv_loop a d rest mn best = Inr r"
         "(\<forall>u\<in>set rest. \<not> contains a u \<longrightarrow> \<not> below (dsize d u) mn) \<longrightarrow> r = best"
         "(\<exists>u\<in>set rest. \<not> contains a u \<and> below (dsize d u) mn) \<longrightarrow>
              (\<exists>pre v post. rest = pre @ v # post \<and> r = Some v \<and> \<not> contains a v \<and>
                 below (dsize d v) mn \<and>
                 (\<forall>u\<in>set pre. \<not> contains a u \<longrightarrow> dsize d v < dsize d u) \<and>
                 (\<forall>u\<in>set post. \<not> contains a u \<longrightarrow> dsize d v \<le> dsize d u))" by blast
      have run: "mrv_loop a d (x # rest) mn best = Inr r"
        using False nb dx sx r(1) by (simp add: getitem_def)
      have A: "(\<forall>u\<in>set (x # rest). \<not> contains a u \<longrightarrow> \<not> below (dsize d u) mn) \<longrightarrow> r = best"
        using r(2) by simp
      have B: "(\<exists>u\<in>set (x # rest). \<not> contains a u \<and> below (dsize d u) mn) \<longrightarrow>
              (\<exists>pre v post. x # rest = pre @ v # post \<and> r = Some v \<and> \<not> contains a v \<and>
                 below (dsize d v) mn \<and>
                 (\<forall>u\<in>set pre. \<not> contains a u \<longrightarrow> dsize d v < dsize d u) \<and>
                 (\<forall>u\<in>set post. \<not> contains a u \<longrightarrow> dsize d v \<le> dsize d u))"
      proof
        assume "\<exists>u\<in>set (x # rest). \<not> contains a u \<and> below (dsize d u) mn"
        with nb have "\<exists>u\<in>set rest. \<not> contains a u \<and> below (dsize d u) mn" by auto
        with r(3) obtain pre v post where pv: "rest = pre @ v # post" "r = Some v" "\<not> contains a v"
          "below (dsize d v) mn" "\<forall>u\<in>set pre. \<not> contains a u \<longrightarrow> dsize d v < dsize d u"
          "\<forall>u\<in>set post. \<not> contains a u \<longrightarrow> dsize d v \<le> dsize d u" by blast
        have lt: "dsize d v < dsize d x" using pv(4) m by simp
        have "x # rest = (x # pre) @ v # post" using pv(1) by simp
        moreover have "\<forall>u\<in>set (x # pre). \<not> contains a u \<longrightarrow> dsize d v < dsize d u"
          using pv(5) lt by simp
        ultimately show "\<exists>pre v post. x # rest = pre @ v # post \<and> r = Some v \<and> \<not> contains a v \<and>
                 below (dsize d v) mn \<and>
                 (\<forall>u\<in>set pre. \<not> contains a u \<longrightarrow> dsize d v < dsize d u) \<and>
                 (\<forall>u\<in>set post. \<not> contains a u \<longrightarrow> dsize d v \<le> dsize d u)"
          using pv(2,3,4,6) by blast
      qed
      from run A B show ?thesis by blast
    qed
  qed
qed

lemma dsize_getitem: "contains d u \<Longrightarrow> \<exists>du. getitem d u = Inr du \<and> dsize d u = int (length du)"
  by (auto simp: contains_def getitem_def dsize_def)

text \<open>
  Claim C9. When some variable of the model is unassigned and every unassigned variable
  has a domain, \<open>mrv\<close> returns an unassigned variable \<open>v\<close> of the model whose domain is
  no larger than that of any unassigned variable, and every unassigned variable declared
  before \<open>v\<close> has a strictly larger domain: among the minimal ones, the first in
  declaration order is returned.
\<close>

theorem mrv_selects_first_minimal:
  assumes "\<exists>u\<in>set (variables csp). \<not> contains a u"
    and "\<forall>u\<in>set (variables csp). \<not> contains a u \<longrightarrow> contains d u"
  shows "\<exists>pre v post dv. mrv csp a d = Inr (Some v) \<and> variables csp = pre @ v # post \<and>
           \<not> contains a v \<and> getitem d v = Inr dv \<and>
           (\<forall>u\<in>set (variables csp). \<not> contains a u \<longrightarrow>
              (\<exists>du. getitem d u = Inr du \<and> length dv \<le> length du)) \<and>
           (\<forall>u\<in>set pre. \<not> contains a u \<longrightarrow>
              (\<exists>du. getitem d u = Inr du \<and> length dv < length du))"
proof -
  from assms(1) have ex: "\<exists>u\<in>set (variables csp). \<not> contains a u \<and> below (dsize d u) None"
    by simp
  from mrv_loop_spec[OF assms(2), of None None] ex
  obtain pre v post where pv: "mrv_loop a d (variables csp) None None = Inr (Some v)"
    "variables csp = pre @ v # post" "\<not> contains a v"
    "\<forall>u\<in>set pre. \<not> contains a u \<longrightarrow> dsize d v < dsize d u"
    "\<forall>u\<in>set post. \<not> contains a u \<longrightarrow> dsize d v \<le> dsize d u" by blast
  have all: "\<forall>u\<in>set (variables csp). \<not> contains a u \<longrightarrow> dsize d v \<le> dsize d u"
    using pv(2,4,5) by auto
  have "contains d v" using assms(2) pv(2,3) by simp
  from dsize_getitem[OF this] obtain dv where dv: "getitem d v = Inr dv" "dsize d v = int (length dv)"
    by blast
  have g1: "\<forall>u\<in>set (variables csp). \<not> contains a u \<longrightarrow>
              (\<exists>du. getitem d u = Inr du \<and> length dv \<le> length du)"
  proof (intro ballI impI)
    fix u assume u: "u \<in> set (variables csp)" "\<not> contains a u"
    with assms(2) have "contains d u" by simp
    from dsize_getitem[OF this] obtain du where "getitem d u = Inr du" "dsize d u = int (length du)"
      by blast
    with all u dv(2) show "\<exists>du. getitem d u = Inr du \<and> length dv \<le> length du" by auto
  qed
  have g2: "\<forall>u\<in>set pre. \<not> contains a u \<longrightarrow>
              (\<exists>du. getitem d u = Inr du \<and> length dv < length du)"
  proof (intro ballI impI)
    fix u assume u: "u \<in> set pre" "\<not> contains a u"
    with assms(2) pv(2) have "contains d u" by simp
    from dsize_getitem[OF this] obtain du where "getitem d u = Inr du" "dsize d u = int (length du)"
      by blast
    with pv(4) u dv(2) show "\<exists>du. getitem d u = Inr du \<and> length dv < length du" by auto
  qed
  from pv(1,2,3) dv(1) g1 g2 show ?thesis unfolding mrv_def by blast
qed

theorem mrv_selects_first_minimal_witness:
  "mrv \<lparr>variables = [''A'', ''B'', ''C'', ''D''],
        domains = [(''A'', [''R'']), (''B'', [''R'', ''G'', ''B'']), (''C'', [''R'', ''G'']), (''D'', [''G'', ''B''])],
        constraints = [(''A'', ''B'')]\<rparr>
       [(''A'', ''R'')]
       [(''A'', [''R'']), (''B'', [''R'', ''G'', ''B'']), (''C'', [''R'', ''G'']), (''D'', [''G'', ''B''])]
     = Inr (Some ''C'') \<and>
   (\<exists>pre post. [''A'', ''B'', ''C'', ''D''] = pre @ ''C'' # post) \<and> \<not> contains [(''A'', ''R'')] ''C''"
proof -
  let ?csp = "\<lparr>variables = [''A'', ''B'', ''C'', ''D''],
        domains = [(''A'', [''R'']), (''B'', [''R'', ''G'', ''B'']), (''C'', [''R'', ''G'']), (''D'', [''G'', ''B''])],
        constraints = [(''A'', ''B'')]\<rparr>"
  let ?a = "[(''A'', ''R'')]"
  let ?d = "[(''A'', [''R'']), (''B'', [''R'', ''G'', ''B'']), (''C'', [''R'', ''G'']), (''D'', [''G'', ''B''])]"
  have h1: "\<exists>u\<in>set (variables ?csp). \<not> contains ?a u" by (simp add: contains_def)
  have h2: "\<forall>u\<in>set (variables ?csp). \<not> contains ?a u \<longrightarrow> contains ?d u" by (simp add: contains_def)
  have e: "mrv ?csp ?a ?d = Inr (Some ''C'')"
    by (simp add: mrv_def contains_def getitem_def)
  from mrv_selects_first_minimal[OF h1 h2] obtain pre v post where
    "mrv ?csp ?a ?d = Inr (Some v)" "variables ?csp = pre @ v # post" "\<not> contains ?a v" by blast
  with e show ?thesis by auto
qed

section \<open>The constraint graph\<close>

text \<open>The adjacency of a node in a graph under construction\<close>

definition nbrs :: "var list dict \<Rightarrow> var \<Rightarrow> var set" where
  "nbrs adj k = (case map_of adj k of None \<Rightarrow> {} | Some ns \<Rightarrow> set ns)"

definition adj_ok :: "var list dict \<Rightarrow> bool" where
  "adj_ok adj = (\<forall>k ns. map_of adj k = Some ns \<longrightarrow> distinct ns)"

lemma map_of_add_node:
  "map_of (add_node n adj) k = (if k = n \<and> map_of adj n = None then Some [] else map_of adj k)"
proof (cases "map_of adj n")
  case None
  then have "add_node n adj = adj @ [(n, [])]" by (simp add: add_node_def contains_def)
  then show ?thesis using None by (cases "map_of adj k") (auto simp: map_add_def)
next
  case (Some a)
  then have "add_node n adj = adj" by (simp add: add_node_def contains_def)
  then show ?thesis using Some by simp
qed

lemma map_of_add_nbr:
  "map_of (add_nbr u v adj) k =
     (if k = u then map_option (\<lambda>ns. if v \<in> set ns then ns else ns @ [v]) (map_of adj u)
      else map_of adj k)"
  by (cases "map_of adj u") (simp_all add: add_nbr_def map_of_setitem)

lemma dom_add_node: "dom (map_of (add_node n adj)) = insert n (dom (map_of adj))"
  by (auto simp: map_of_add_node dom_def)

lemma dom_add_nbr: "dom (map_of (add_nbr u v adj)) = dom (map_of adj)"
  by (auto simp: map_of_add_nbr dom_def)

lemma nbrs_add_node: "nbrs (add_node n adj) k = nbrs adj k"
  by (simp add: nbrs_def map_of_add_node)

lemma nbrs_add_nbr:
  "nbrs (add_nbr u v adj) k =
     (if k = u \<and> u \<in> dom (map_of adj) then insert v (nbrs adj k) else nbrs adj k)"
  by (cases "map_of adj u") (auto simp: nbrs_def map_of_add_nbr)

lemma adj_ok_add_node: "adj_ok adj \<Longrightarrow> adj_ok (add_node n adj)"
  unfolding adj_ok_def
proof (intro allI impI)
  fix k ns
  assume ok: "\<forall>k ns. map_of adj k = Some ns \<longrightarrow> distinct ns"
    and m: "map_of (add_node n adj) k = Some ns"
  from m have "ns = [] \<or> map_of adj k = Some ns"
    unfolding map_of_add_node by (cases "k = n \<and> map_of adj n = None") auto
  with ok show "distinct ns" by (elim disjE) (simp, blast)
qed

lemma adj_ok_add_nbr: "adj_ok adj \<Longrightarrow> adj_ok (add_nbr u v adj)"
  unfolding adj_ok_def
proof (intro allI impI)
  fix k ns
  assume ok: "\<forall>k ns. map_of adj k = Some ns \<longrightarrow> distinct ns"
    and m: "map_of (add_nbr u v adj) k = Some ns"
  show "distinct ns"
  proof (cases "k = u")
    case True
    with m obtain ns0 where n0: "map_of adj u = Some ns0"
      "ns = (if v \<in> set ns0 then ns0 else ns0 @ [v])"
      by (auto simp: map_of_add_nbr)
    from ok n0(1) have "distinct ns0" by blast
    with n0(2) show ?thesis by simp
  next
    case False
    with m have "map_of adj k = Some ns" by (simp add: map_of_add_nbr)
    with ok show ?thesis by blast
  qed
qed

lemma dom_add_edge: "dom (map_of (add_edge (u, v) adj)) = dom (map_of adj) \<union> {u, v}"
  by (simp add: add_edge_def dom_add_nbr dom_add_node insert_commute)

lemma nbrs_add_edge:
  "nbrs (add_edge (u, v) adj) k =
     nbrs adj k \<union> (if k = u then {v} else {}) \<union> (if k = v then {u} else {})"
  by (simp add: add_edge_def nbrs_add_nbr nbrs_add_node dom_add_nbr dom_add_node)

lemma adj_ok_add_edge: "adj_ok adj \<Longrightarrow> adj_ok (add_edge (u, v) adj)"
  by (simp add: add_edge_def adj_ok_add_nbr adj_ok_add_node)

lemma fold_add_edge:
  "dom (map_of (fold add_edge cs adj)) = dom (map_of adj) \<union> fst ` set cs \<union> snd ` set cs \<and>
   (\<forall>k. nbrs (fold add_edge cs adj) k =
      nbrs adj k \<union> {w. (k, w) \<in> set cs \<or> (w, k) \<in> set cs}) \<and>
   (adj_ok adj \<longrightarrow> adj_ok (fold add_edge cs adj))"
proof (induction cs arbitrary: adj)
  case Nil
  then show ?case by simp
next
  case (Cons c cs)
  obtain u v where c: "c = (u, v)" by (cases c)
  let ?adj = "add_edge (u, v) adj"
  note IH = Cons.IH[of ?adj]
  have d: "dom (map_of (fold add_edge (c # cs) adj)) =
             dom (map_of adj) \<union> fst ` set (c # cs) \<union> snd ` set (c # cs)"
    using IH by (simp add: c dom_add_edge) blast
  have n: "\<forall>k. nbrs (fold add_edge (c # cs) adj) k =
             nbrs adj k \<union> {w. (k, w) \<in> set (c # cs) \<or> (w, k) \<in> set (c # cs)}"
  proof
    fix k
    have "nbrs (fold add_edge (c # cs) adj) k =
            nbrs ?adj k \<union> {w. (k, w) \<in> set cs \<or> (w, k) \<in> set cs}"
      using IH by (simp add: c)
    also have "\<dots> = nbrs adj k \<union> {w. (k, w) \<in> set (c # cs) \<or> (w, k) \<in> set (c # cs)}"
      unfolding nbrs_add_edge c by auto
    finally show "nbrs (fold add_edge (c # cs) adj) k =
             nbrs adj k \<union> {w. (k, w) \<in> set (c # cs) \<or> (w, k) \<in> set (c # cs)}" .
  qed
  have o: "adj_ok adj \<longrightarrow> adj_ok (fold add_edge (c # cs) adj)"
    using IH by (simp add: c adj_ok_add_edge)
  from d n o show ?case by blast
qed

lemma fold_add_node:
  "dom (map_of (fold add_node vs adj)) = dom (map_of adj) \<union> set vs \<and>
   (\<forall>k. nbrs (fold add_node vs adj) k = nbrs adj k) \<and>
   (adj_ok adj \<longrightarrow> adj_ok (fold add_node vs adj))"
proof (induction vs arbitrary: adj)
  case Nil
  then show ?case by simp
next
  case (Cons x vs)
  show ?case
    using Cons.IH[of "add_node x adj"]
    by (simp add: dom_add_node nbrs_add_node adj_ok_add_node)
qed

lemma dom_graph:
  "dom (map_of (graph csp)) =
     set (variables csp) \<union> fst ` set (constraints csp) \<union> snd ` set (constraints csp)"
  using fold_add_edge[of "constraints csp" "fold add_node (variables csp) []"]
        fold_add_node[of "variables csp" "[]"]
  by (simp add: graph_def)

lemma nbrs_graph:
  "nbrs (graph csp) k = {w. (k, w) \<in> set (constraints csp) \<or> (w, k) \<in> set (constraints csp)}"
  using fold_add_edge[of "constraints csp" "fold add_node (variables csp) []"]
        fold_add_node[of "variables csp" "[]"]
  by (simp add: graph_def nbrs_def)

lemma adj_ok_graph: "adj_ok (graph csp)"
proof -
  have "adj_ok []" by (simp add: adj_ok_def)
  then have "adj_ok (fold add_node (variables csp) [])"
    using fold_add_node[of "variables csp" "[]"] by blast
  then have "adj_ok (fold add_edge (constraints csp) (fold add_node (variables csp) []))"
    using fold_add_edge[of "constraints csp" "fold add_node (variables csp) []"] by blast
  then show ?thesis by (simp only: graph_def)
qed

lemma get_neighbors_set:
  "get_neighbors csp u = Inr ns \<Longrightarrow>
   set ns = {w. (u, w) \<in> set (constraints csp) \<or> (w, u) \<in> set (constraints csp)}"
  using nbrs_graph[of csp u]
  by (auto simp: get_neighbors_def nbrs_def split: option.splits)

lemma get_neighbors_distinct:
  assumes "get_neighbors csp u = Inr ns"
  shows "distinct ns"
proof -
  from assms have "map_of (graph csp) u = Some ns"
    by (cases "map_of (graph csp) u") (simp_all add: get_neighbors_def)
  moreover have "\<forall>k ns. map_of (graph csp) k = Some ns \<longrightarrow> distinct ns"
    using adj_ok_graph[of csp] unfolding adj_ok_def .
  ultimately show ?thesis by blast
qed

lemma get_neighbors_defined:
  "u \<in> set (variables csp) \<union> fst ` set (constraints csp) \<union> snd ` set (constraints csp) \<Longrightarrow>
   \<exists>ns. get_neighbors csp u = Inr ns"
  using dom_graph[of csp]
  by (auto simp: get_neighbors_def split: option.splits)

lemma get_neighbors_raises:
  "u \<notin> set (variables csp) \<union> fst ` set (constraints csp) \<union> snd ` set (constraints csp) \<Longrightarrow>
   get_neighbors csp u = Inl NetworkXError"
  using dom_graph[of csp]
  by (auto simp: get_neighbors_def split: option.splits)

section \<open>Forward checking\<close>

text \<open>
  The reading of the contract: a neighbour is pruned when it is unassigned and its domain
  holds the value, it is wiped out when it is unassigned and its domain is the value alone;
  \<open>fc_after\<close> is the domain of a variable once the neighbours \<open>ns\<close> have been processed.
  \<open>list.remove\<close> takes the first occurrence of the value away.
\<close>

definition fc_prunes :: "colour \<Rightarrow> assignment \<Rightarrow> domain_map \<Rightarrow> var \<Rightarrow> bool" where
  "fc_prunes val a d n =
     (\<not> contains a n \<and> (case map_of d n of None \<Rightarrow> False | Some dm \<Rightarrow> val \<in> set dm))"

definition fc_wipes :: "colour \<Rightarrow> assignment \<Rightarrow> domain_map \<Rightarrow> var \<Rightarrow> bool" where
  "fc_wipes val a d n = (\<not> contains a n \<and> map_of d n = Some [val])"

definition fc_after ::
  "colour \<Rightarrow> assignment \<Rightarrow> domain_map \<Rightarrow> var list \<Rightarrow> var \<Rightarrow> colour list option"
where
  "fc_after val a d ns k =
     (if k \<in> set ns \<and> fc_prunes val a d k then map_option (remove1 val) (map_of d k)
      else map_of d k)"

lemma remove1_empty: "val \<in> set dm \<Longrightarrow> (remove1 val dm = []) = (dm = [val])"
  by (cases dm) auto

lemma fc_prunes_setitem: "m \<noteq> n \<Longrightarrow> fc_prunes val a (setitem d n x) m = fc_prunes val a d m"
  by (simp add: fc_prunes_def map_of_setitem)

lemma fc_wipes_setitem: "m \<noteq> n \<Longrightarrow> fc_wipes val a (setitem d n x) m = fc_wipes val a d m"
  by (simp add: fc_wipes_def map_of_setitem)

lemma contains_setitem: "contains (setitem d n x) m = (m = n \<or> contains d m)"
  by (simp add: contains_def map_of_setitem)

lemma fc_loop_skip:
  "\<not> fc_prunes val a d n \<Longrightarrow> contains a n \<or> contains d n \<Longrightarrow>
   fc_loop val a (n # rest) p d = fc_loop val a rest p d"
  by (auto simp: fc_prunes_def contains_def getitem_def split: option.splits)

lemma fc_loop_prune:
  assumes "fc_prunes val a d n" and "map_of d n = Some dm"
  shows "fc_loop val a (n # rest) p d =
           (if dm = [val] then Inr (Wipeout, setitem d n [])
            else fc_loop val a rest (p + 1) (setitem d n (remove1 val dm)))"
proof -
  from assms have v: "val \<in> set dm" and u: "\<not> contains a n"
    by (simp_all add: fc_prunes_def)
  show ?thesis
  proof (cases "dm = [val]")
    case True
    with assms u show ?thesis
      by (simp add: getitem_def list_remove_def)
  next
    case False
    with v have "remove1 val dm \<noteq> []" by (simp add: remove1_empty)
    with assms u v False show ?thesis
      by (simp add: getitem_def list_remove_def Let_def)
  qed
qed

lemma fc_loop_no_wipeout:
  assumes "distinct ns"
      and "\<forall>n\<in>set ns. \<not> contains a n \<longrightarrow> contains d n"
      and "\<forall>n\<in>set ns. \<not> fc_wipes val a d n"
  shows "\<exists>d'. fc_loop val a ns p d =
                 Inr (Pruned (p + int (length (filter (fc_prunes val a d) ns))), d') \<and>
              map fst d' = map fst d \<and>
              (\<forall>k. map_of d' k = fc_after val a d ns k)"
  using assms
proof (induction ns arbitrary: d p)
  case Nil
  then show ?case by (simp add: fc_after_def)
next
  case (Cons n rest)
  have nr: "n \<notin> set rest" and dr: "distinct rest" using Cons.prems(1) by simp_all
  show ?case
  proof (cases "fc_prunes val a d n")
    case False
    have c: "contains a n \<or> contains d n" using Cons.prems(2) by auto
    have "\<exists>d'. fc_loop val a rest p d =
                 Inr (Pruned (p + int (length (filter (fc_prunes val a d) rest))), d') \<and>
              map fst d' = map fst d \<and>
              (\<forall>k. map_of d' k = fc_after val a d rest k)"
      using Cons.IH[OF dr] Cons.prems(2,3) by simp
    then obtain d' where d':
      "fc_loop val a rest p d =
         Inr (Pruned (p + int (length (filter (fc_prunes val a d) rest))), d')"
      "map fst d' = map fst d" "\<forall>k. map_of d' k = fc_after val a d rest k"
      by blast
    have fa: "\<forall>k. fc_after val a d (n # rest) k = fc_after val a d rest k"
      using False by (auto simp: fc_after_def)
    have step: "fc_loop val a (n # rest) p d = fc_loop val a rest p d"
      using False c by (rule fc_loop_skip)
    from d' False fa show ?thesis
      unfolding step by (simp del: fc_loop.simps)
  next
    case True
    then obtain dm where dm: "map_of d n = Some dm" and v: "val \<in> set dm"
      and u: "\<not> contains a n"
      by (auto simp: fc_prunes_def split: option.splits)
    from Cons.prems(3) u dm have nw: "dm \<noteq> [val]" by (auto simp: fc_wipes_def)
    let ?d1 = "setitem d n (remove1 val dm)"
    have step: "fc_loop val a (n # rest) p d = fc_loop val a rest (p + 1) ?d1"
      using fc_loop_prune[OF True dm, of rest p] nw by (simp del: fc_loop.simps)
    have h2: "\<forall>m\<in>set rest. \<not> contains a m \<longrightarrow> contains ?d1 m"
      using Cons.prems(2) by (simp add: contains_setitem)
    have h3: "\<forall>m\<in>set rest. \<not> fc_wipes val a ?d1 m"
    proof
      fix m
      assume m: "m \<in> set rest"
      with nr have "m \<noteq> n" by auto
      then have "fc_wipes val a ?d1 m = fc_wipes val a d m" by (rule fc_wipes_setitem)
      with Cons.prems(3) m show "\<not> fc_wipes val a ?d1 m" by simp
    qed
    from Cons.IH[OF dr h2 h3, of "p + 1"] obtain d' where d':
      "fc_loop val a rest (p + 1) ?d1 =
         Inr (Pruned (p + 1 + int (length (filter (fc_prunes val a ?d1) rest))), d')"
      "map fst d' = map fst ?d1" "\<forall>k. map_of d' k = fc_after val a ?d1 rest k"
      by blast
    have f: "filter (fc_prunes val a ?d1) rest = filter (fc_prunes val a d) rest"
    proof (rule filter_cong[OF refl])
      fix m
      assume "m \<in> set rest"
      with nr have "m \<noteq> n" by auto
      then show "fc_prunes val a ?d1 m = fc_prunes val a d m" by (rule fc_prunes_setitem)
    qed
    have k: "map fst ?d1 = map fst d" using dm by (rule keys_setitem)
    have a: "\<forall>k. fc_after val a ?d1 rest k = fc_after val a d (n # rest) k"
    proof
      fix k
      show "fc_after val a ?d1 rest k = fc_after val a d (n # rest) k"
      proof (cases "k = n")
        case True
        then show ?thesis using nr dm \<open>fc_prunes val a d n\<close>
          by (simp add: fc_after_def map_of_setitem)
      next
        case False
        then show ?thesis
          by (simp add: fc_after_def map_of_setitem fc_prunes_setitem)
      qed
    qed
    from d' f k a True show ?thesis
      unfolding step by (simp del: fc_loop.simps)
  qed
qed

lemma fc_loop_append:
  "fc_loop val a pre p d = Inr (Pruned q, d1) \<Longrightarrow>
   fc_loop val a (pre @ rest) p d = fc_loop val a rest q d1"
proof (induction pre arbitrary: p d)
  case Nil
  then show ?case by simp
next
  case (Cons n pre)
  then show ?case
    by (auto simp: Let_def split: if_splits sum.splits)
qed

lemma fc_loop_wipeout:
  assumes "distinct (pre @ y # post)"
      and "\<forall>n\<in>set pre. \<not> contains a n \<longrightarrow> contains d n"
      and "\<forall>n\<in>set pre. \<not> fc_wipes val a d n"
      and "fc_wipes val a d y"
  shows "\<exists>d'. fc_loop val a (pre @ y # post) p d = Inr (Wipeout, d') \<and>
              map fst d' = map fst d \<and> map_of d' y = Some [] \<and>
              (\<forall>k. map_of d' k = fc_after val a d (pre @ [y]) k)"
proof -
  have dp: "distinct pre" and yp: "y \<notin> set pre" using assms(1) by simp_all
  from fc_loop_no_wipeout[OF dp assms(2,3), of p] obtain d1 where d1:
    "fc_loop val a pre p d =
       Inr (Pruned (p + int (length (filter (fc_prunes val a d) pre))), d1)"
    "map fst d1 = map fst d" "\<forall>k. map_of d1 k = fc_after val a d pre k"
    by blast
  let ?q = "p + int (length (filter (fc_prunes val a d) pre))"
  have my: "map_of d y = Some [val]" and uy: "\<not> contains a y"
    using assms(4) by (simp_all add: fc_wipes_def)
  have my1: "map_of d1 y = Some [val]" using d1(3) yp my by (simp add: fc_after_def)
  have py: "fc_prunes val a d y" using my uy by (simp add: fc_prunes_def)
  have py1: "fc_prunes val a d1 y" using my1 uy by (simp add: fc_prunes_def)
  have "fc_loop val a (pre @ y # post) p d = fc_loop val a (y # post) ?q d1"
    using d1(1) by (rule fc_loop_append)
  also have "\<dots> = Inr (Wipeout, setitem d1 y [])"
    using fc_loop_prune[OF py1 my1, of post ?q] by (simp del: fc_loop.simps)
  finally have r: "fc_loop val a (pre @ y # post) p d = Inr (Wipeout, setitem d1 y [])" .
  have k: "map fst (setitem d1 y []) = map fst d"
    using keys_setitem[OF my1] d1(2) by simp
  have a: "\<forall>k. map_of (setitem d1 y []) k = fc_after val a d (pre @ [y]) k"
  proof
    fix k
    show "map_of (setitem d1 y []) k = fc_after val a d (pre @ [y]) k"
    proof (cases "k = y")
      case True
      then show ?thesis using py my by (simp add: map_of_setitem fc_after_def)
    next
      case False
      then show ?thesis using d1(3) by (simp add: map_of_setitem fc_after_def)
    qed
  qed
  from r k a show ?thesis by (simp add: map_of_setitem)
qed

text \<open>
  Claim C6, with the wipeout at the first neighbour that is emptied. Let \<open>ns\<close> be the
  neighbours of \<open>X\<close> in neighbour order, each unassigned one having a domain. When no
  unassigned neighbour has the domain \<open>[v]\<close>, forward checking returns the number of
  unassigned neighbours whose domain holds \<open>v\<close>, and has removed \<open>v\<close> (its first
  occurrence) from the domain of each of them and changed nothing else. When \<open>Y\<close> is the
  first unassigned neighbour with the domain \<open>[v]\<close>, it reports the wipeout, the domain of
  \<open>Y\<close> is left empty, the removals at the neighbours before \<open>Y\<close> stay, and the domains of
  the neighbours after \<open>Y\<close> are as they were.
\<close>

theorem forward_checking_contract:
  assumes "get_neighbors csp x = Inr ns"
      and "\<forall>n\<in>set ns. \<not> contains a n \<longrightarrow> contains d n"
  shows "((\<forall>n\<in>set ns. \<not> fc_wipes val a d n) \<longrightarrow>
            (\<exists>d'. ForwardChecking_infer csp x val a d =
                    Inr (Pruned (int (length (filter (fc_prunes val a d) ns))), d') \<and>
                  map fst d' = map fst d \<and>
                  (\<forall>k. map_of d' k = fc_after val a d ns k))) \<and>
         (\<forall>pre y post.
            ns = pre @ y # post \<and> fc_wipes val a d y \<and> (\<forall>n\<in>set pre. \<not> fc_wipes val a d n) \<longrightarrow>
            (\<exists>d'. ForwardChecking_infer csp x val a d = Inr (Wipeout, d') \<and>
                  map fst d' = map fst d \<and> map_of d' y = Some [] \<and>
                  (\<forall>k. map_of d' k = fc_after val a d (pre @ [y]) k)))"
proof -
  have dist: "distinct ns" using assms(1) by (rule get_neighbors_distinct)
  have fc: "ForwardChecking_infer csp x val a d = fc_loop val a ns 0 d"
    using assms(1) by (simp add: ForwardChecking_infer_def)
  have one: "(\<forall>n\<in>set ns. \<not> fc_wipes val a d n) \<longrightarrow>
            (\<exists>d'. ForwardChecking_infer csp x val a d =
                    Inr (Pruned (int (length (filter (fc_prunes val a d) ns))), d') \<and>
                  map fst d' = map fst d \<and>
                  (\<forall>k. map_of d' k = fc_after val a d ns k))"
  proof
    assume nw: "\<forall>n\<in>set ns. \<not> fc_wipes val a d n"
    from fc_loop_no_wipeout[OF dist assms(2) nw, of 0]
    show "\<exists>d'. ForwardChecking_infer csp x val a d =
                    Inr (Pruned (int (length (filter (fc_prunes val a d) ns))), d') \<and>
                  map fst d' = map fst d \<and>
                  (\<forall>k. map_of d' k = fc_after val a d ns k)"
      unfolding fc by simp
  qed
  have two: "\<forall>pre y post.
            ns = pre @ y # post \<and> fc_wipes val a d y \<and> (\<forall>n\<in>set pre. \<not> fc_wipes val a d n) \<longrightarrow>
            (\<exists>d'. ForwardChecking_infer csp x val a d = Inr (Wipeout, d') \<and>
                  map fst d' = map fst d \<and> map_of d' y = Some [] \<and>
                  (\<forall>k. map_of d' k = fc_after val a d (pre @ [y]) k))"
  proof (intro allI impI, elim conjE)
    fix pre y post
    assume ns: "ns = pre @ y # post" and wy: "fc_wipes val a d y"
      and nw: "\<forall>n\<in>set pre. \<not> fc_wipes val a d n"
    have d1: "distinct (pre @ y # post)" using dist ns by simp
    have d2: "\<forall>n\<in>set pre. \<not> contains a n \<longrightarrow> contains d n"
      using assms(2) ns by simp
    from fc_loop_wipeout[OF d1 d2 nw wy, of 0]
    show "\<exists>d'. ForwardChecking_infer csp x val a d = Inr (Wipeout, d') \<and>
                  map fst d' = map fst d \<and> map_of d' y = Some [] \<and>
                  (\<forall>k. map_of d' k = fc_after val a d (pre @ [y]) k)"
      unfolding fc ns .
  qed
  from one two show ?thesis by (rule conjI)
qed

theorem forward_checking_contract_witness:
  "(\<exists>d'. ForwardChecking_infer
           \<lparr>variables = [''X'', ''Y1'', ''Y2'', ''Y3''], domains = [],
            constraints = [(''X'', ''Y1''), (''X'', ''Y2''), (''X'', ''Y3'')]\<rparr>
           ''X'' ''Red'' [(''X'', ''Red'')]
           [(''X'', [''Red'']), (''Y1'', [''Red'', ''Green'']), (''Y2'', [''Green'']),
            (''Y3'', [''Red'', ''Blue''])] = Inr (Pruned 2, d') \<and>
         map_of d' ''Y1'' = Some [''Green''] \<and> map_of d' ''Y2'' = Some [''Green''] \<and>
         map_of d' ''Y3'' = Some [''Blue''] \<and> map_of d' ''X'' = Some [''Red'']) \<and>
   (\<exists>d'. ForwardChecking_infer
           \<lparr>variables = [''X'', ''Y1'', ''Y2'', ''Y3''], domains = [],
            constraints = [(''X'', ''Y1''), (''X'', ''Y2''), (''X'', ''Y3'')]\<rparr>
           ''X'' ''Red'' [(''X'', ''Red'')]
           [(''X'', [''Red'']), (''Y1'', [''Red'', ''Green'']), (''Y2'', [''Red'']),
            (''Y3'', [''Red'', ''Blue''])] = Inr (Wipeout, d') \<and>
         map_of d' ''Y1'' = Some [''Green''] \<and> map_of d' ''Y2'' = Some [] \<and>
         map_of d' ''Y3'' = Some [''Red'', ''Blue''])"
proof -
  let ?csp = "\<lparr>variables = [''X'', ''Y1'', ''Y2'', ''Y3''], domains = [],
            constraints = [(''X'', ''Y1''), (''X'', ''Y2''), (''X'', ''Y3'')]\<rparr>"
  let ?a = "[(''X'', ''Red'')]"
  let ?d1 = "[(''X'', [''Red'']), (''Y1'', [''Red'', ''Green'']), (''Y2'', [''Green'']),
            (''Y3'', [''Red'', ''Blue''])]"
  let ?d2 = "[(''X'', [''Red'']), (''Y1'', [''Red'', ''Green'']), (''Y2'', [''Red'']),
            (''Y3'', [''Red'', ''Blue''])]"
  have nb: "get_neighbors ?csp ''X'' = Inr [''Y1'', ''Y2'', ''Y3'']"
    by (simp add: get_neighbors_def graph_def add_edge_def add_nbr_def add_node_def
        contains_def setitem_def)
  have h1: "\<forall>n\<in>set [''Y1'', ''Y2'', ''Y3'']. \<not> contains ?a n \<longrightarrow> contains ?d1 n"
    by (simp add: contains_def)
  have h2: "\<forall>n\<in>set [''Y1'', ''Y2'', ''Y3'']. \<not> contains ?a n \<longrightarrow> contains ?d2 n"
    by (simp add: contains_def)
  have nw: "\<forall>n\<in>set [''Y1'', ''Y2'', ''Y3'']. \<not> fc_wipes ''Red'' ?a ?d1 n"
    by (simp add: fc_wipes_def contains_def)
  have sp: "[''Y1'', ''Y2'', ''Y3''] = [''Y1''] @ ''Y2'' # [''Y3''] \<and>
            fc_wipes ''Red'' ?a ?d2 ''Y2'' \<and> (\<forall>n\<in>set [''Y1'']. \<not> fc_wipes ''Red'' ?a ?d2 n)"
    by (simp add: fc_wipes_def contains_def)
  from forward_checking_contract[OF nb h1, of "''Red''"] nw
  obtain e1 where r1: "ForwardChecking_infer ?csp ''X'' ''Red'' ?a ?d1 =
               Inr (Pruned (int (length (filter (fc_prunes ''Red'' ?a ?d1) [''Y1'', ''Y2'', ''Y3'']))), e1)"
    and m1: "\<And>k. map_of e1 k = fc_after ''Red'' ?a ?d1 [''Y1'', ''Y2'', ''Y3''] k"
    by blast
  have c1: "int (length (filter (fc_prunes ''Red'' ?a ?d1) [''Y1'', ''Y2'', ''Y3''])) = 2"
    by (simp add: fc_prunes_def contains_def)
  have v1: "map_of e1 ''Y1'' = Some [''Green'']" "map_of e1 ''Y2'' = Some [''Green'']"
    "map_of e1 ''Y3'' = Some [''Blue'']" "map_of e1 ''X'' = Some [''Red'']"
    unfolding m1 by (simp_all add: fc_after_def fc_prunes_def contains_def)
  have one: "\<exists>d'. ForwardChecking_infer ?csp ''X'' ''Red'' ?a ?d1 = Inr (Pruned 2, d') \<and>
         map_of d' ''Y1'' = Some [''Green''] \<and> map_of d' ''Y2'' = Some [''Green''] \<and>
         map_of d' ''Y3'' = Some [''Blue''] \<and> map_of d' ''X'' = Some [''Red'']"
    using r1 v1 unfolding c1 by blast
  from forward_checking_contract[OF nb h2, of "''Red''"] sp
  obtain e2 where r2: "ForwardChecking_infer ?csp ''X'' ''Red'' ?a ?d2 = Inr (Wipeout, e2)"
    and m2: "\<And>k. map_of e2 k = fc_after ''Red'' ?a ?d2 ([''Y1''] @ [''Y2'']) k"
    by blast
  have v2: "map_of e2 ''Y1'' = Some [''Green'']" "map_of e2 ''Y2'' = Some []"
    "map_of e2 ''Y3'' = Some [''Red'', ''Blue'']"
    unfolding m2 by (simp_all add: fc_after_def fc_prunes_def contains_def)
  have two: "\<exists>d'. ForwardChecking_infer ?csp ''X'' ''Red'' ?a ?d2 = Inr (Wipeout, d') \<and>
         map_of d' ''Y1'' = Some [''Green''] \<and> map_of d' ''Y2'' = Some [] \<and>
         map_of d' ''Y3'' = Some [''Red'', ''Blue'']"
    using r2 v2 by blast
  from one two show ?thesis by (rule conjI)
qed

text \<open>
  Claim C6 as it is worded says of any unassigned neighbour \<open>Y\<close> with the domain \<open>{v}\<close>
  that its domain is left empty. With two such neighbours the call returns at the first
  one, and the second keeps its value: \<open>Y2\<close> is an unassigned neighbour of \<open>X\<close> with the
  domain \<open>[Red]\<close>, the call reports the wipeout, and the domain of \<open>Y2\<close> is still \<open>[Red]\<close>.
\<close>

theorem forward_checking_second_wipeout_kept:
  "get_neighbors
     \<lparr>variables = [''X'', ''Y1'', ''Y2''], domains = [],
      constraints = [(''X'', ''Y1''), (''X'', ''Y2'')]\<rparr> ''X'' = Inr [''Y1'', ''Y2''] \<and>
   contains [(''X'', ''Red'')] ''Y2'' = False \<and>
   getitem [(''X'', [''Red'']), (''Y1'', [''Red'']), (''Y2'', [''Red''])] ''Y2'' = Inr [''Red''] \<and>
   ForwardChecking_infer
     \<lparr>variables = [''X'', ''Y1'', ''Y2''], domains = [],
      constraints = [(''X'', ''Y1''), (''X'', ''Y2'')]\<rparr>
     ''X'' ''Red'' [(''X'', ''Red'')]
     [(''X'', [''Red'']), (''Y1'', [''Red'']), (''Y2'', [''Red''])] =
     Inr (Wipeout, [(''X'', [''Red'']), (''Y1'', []), (''Y2'', [''Red''])])"
  by (simp add: ForwardChecking_infer_def get_neighbors_def graph_def add_edge_def add_nbr_def
      add_node_def contains_def setitem_def getitem_def list_remove_def)

section \<open>The frame of the inference strategies\<close>

lemma contains_Nil: "contains [] k = False"
  by (simp add: contains_def)

lemma fc_loop_frame:
  "fc_loop val a ns p d = Inr (r, d') \<Longrightarrow>
   map fst d' = map fst d \<and> (\<forall>k. contains a k \<longrightarrow> map_of d' k = map_of d k)"
proof (induction ns arbitrary: p d)
  case Nil
  then show ?case by simp
next
  case (Cons n rest)
  show ?case
  proof (cases "contains a n")
    case True
    with Cons.prems have "fc_loop val a rest p d = Inr (r, d')" by simp
    from Cons.IH[OF this] show ?thesis .
  next
    case unassigned: False
    show ?thesis
    proof (cases "map_of d n")
      case None
      with Cons.prems unassigned show ?thesis by (simp add: getitem_def)
    next
      case (Some dm)
      show ?thesis
      proof (cases "val \<in> set dm")
        case False
        with Cons.prems unassigned Some have "fc_loop val a rest p d = Inr (r, d')"
          by (simp add: getitem_def)
        from Cons.IH[OF this] show ?thesis .
      next
        case True
        let ?d1 = "setitem d n (remove1 val dm)"
        have k1: "map fst ?d1 = map fst d" using Some by (rule keys_setitem)
        have f1: "\<forall>k. contains a k \<longrightarrow> map_of ?d1 k = map_of d k"
          using unassigned by (auto simp: map_of_setitem)
        show ?thesis
        proof (cases "remove1 val dm = []")
          case True
          with Cons.prems unassigned Some \<open>val \<in> set dm\<close> have "d' = ?d1"
            by (simp add: getitem_def list_remove_def)
          with k1 f1 show ?thesis by simp
        next
          case False
          with Cons.prems unassigned Some \<open>val \<in> set dm\<close>
          have "fc_loop val a rest (p + 1) ?d1 = Inr (r, d')"
            by (simp add: getitem_def list_remove_def)
          from Cons.IH[OF this] k1 f1 show ?thesis by simp
        qed
      qed
    qed
  qed
qed

lemma ac3_fc_loop_frame:
  "ac3_fc_loop val a ns d = Inr (r, d') \<Longrightarrow>
   map fst d' = map fst d \<and> (\<forall>k. contains a k \<longrightarrow> map_of d' k = map_of d k)"
proof (induction ns arbitrary: d)
  case Nil
  then show ?case by simp
next
  case (Cons n rest)
  show ?case
  proof (cases "contains a n")
    case True
    with Cons.prems have "ac3_fc_loop val a rest d = Inr (r, d')" by simp
    from Cons.IH[OF this] show ?thesis .
  next
    case unassigned: False
    show ?thesis
    proof (cases "map_of d n")
      case None
      with Cons.prems unassigned show ?thesis by (simp add: getitem_def)
    next
      case (Some dm)
      show ?thesis
      proof (cases "val \<in> set dm")
        case False
        with Cons.prems unassigned Some have "ac3_fc_loop val a rest d = Inr (r, d')"
          by (simp add: getitem_def)
        from Cons.IH[OF this] show ?thesis .
      next
        case True
        let ?d1 = "setitem d n (remove1 val dm)"
        have k1: "map fst ?d1 = map fst d" using Some by (rule keys_setitem)
        have f1: "\<forall>k. contains a k \<longrightarrow> map_of ?d1 k = map_of d k"
          using unassigned by (auto simp: map_of_setitem)
        show ?thesis
        proof (cases "remove1 val dm = []")
          case True
          with Cons.prems unassigned Some \<open>val \<in> set dm\<close> have "d' = ?d1"
            by (simp add: getitem_def list_remove_def)
          with k1 f1 show ?thesis by simp
        next
          case False
          with Cons.prems unassigned Some \<open>val \<in> set dm\<close>
          have "ac3_fc_loop val a rest ?d1 = Inr (r, d')"
            by (simp add: getitem_def list_remove_def)
          from Cons.IH[OF this] k1 f1 show ?thesis by simp
        qed
      qed
    qed
  qed
qed

lemma remove_values_frame:
  "remove_values xi vs d = Inr d' \<Longrightarrow>
   map fst d' = map fst d \<and> (\<forall>k. k \<noteq> xi \<longrightarrow> map_of d' k = map_of d k)"
proof (induction vs arbitrary: d)
  case Nil
  then show ?case by simp
next
  case (Cons x rest)
  from Cons.prems obtain di where di: "map_of d xi = Some di"
    by (cases "map_of d xi") (simp_all add: getitem_def)
  from Cons.prems di obtain di' where
    r: "remove_values xi rest (setitem d xi di') = Inr d'"
    by (cases "list_remove di x") (simp_all add: getitem_def)
  have "map fst (setitem d xi di') = map fst d" using di by (rule keys_setitem)
  moreover have "\<forall>k. k \<noteq> xi \<longrightarrow> map_of (setitem d xi di') k = map_of d k"
    by (simp add: map_of_setitem)
  ultimately show ?case using Cons.IH[OF r] by simp
qed

lemma revise_frame:
  assumes "revise d xi xj = Inr (b, d')"
  shows "map fst d' = map fst d \<and> (\<forall>k. k \<noteq> xi \<longrightarrow> map_of d' k = map_of d k)"
proof -
  from assms obtain vs where "remove_values xi vs d = Inr d'"
    by (auto simp: revise_def split: sum.splits)
  then show ?thesis by (rule remove_values_frame)
qed

lemma enforce_loop_frame:
  "enforce_loop csp (Some a) queue d = Inr (b, d') \<Longrightarrow>
   map fst d' = map fst d \<and> (\<forall>k. contains a k \<longrightarrow> map_of d' k = map_of d k)"
proof (induction csp "Some a" queue d rule: enforce_loop.induct)
  case (1 csp d)
  then show ?case by simp
next
  case (2 csp xi xj queue d)
  show ?case
  proof (cases "skip_assigned (Some a) xi")
    case True
    with "2.prems" have "enforce_loop csp (Some a) queue d = Inr (b, d')" by simp
    from "2.hyps"(1)[OF True this] show ?thesis .
  next
    case ns: False
    then have ua: "\<not> contains a xi"
      by (cases a) (auto simp: skip_assigned_def contains_def)
    from "2.prems" ns obtain revised d1 where rv: "revise d xi xj = Inr (revised, d1)"
      by (cases "revise d xi xj") auto
    have k1: "map fst d1 = map fst d"
      and f1: "\<forall>k. contains a k \<longrightarrow> map_of d1 k = map_of d k"
      using revise_frame[OF rv] ua by auto
    show ?thesis
    proof (cases revised)
      case False
      with "2.prems" ns rv have e: "enforce_loop csp (Some a) queue d1 = Inr (b, d')" by simp
      from "2.hyps"(3)[OF ns rv refl False e] k1 f1 show ?thesis by simp
    next
      case True
      from "2.prems" ns rv True obtain di where gi: "getitem d1 xi = Inr di"
        by (cases "getitem d1 xi") auto
      show ?thesis
      proof (cases "length di = 0")
        case empty: True
        with "2.prems" ns rv True gi have "d' = d1" by simp
        with k1 f1 show ?thesis by simp
      next
        case nonempty: False
        from "2.prems" ns rv True gi nonempty obtain nbs where
          nb: "get_neighbors csp xi = Inr nbs"
          by (cases "get_neighbors csp xi") auto
        from "2.prems" ns rv True gi nonempty nb
        have e: "enforce_loop csp (Some a)
                   (queue @ map (\<lambda>xk. (xk, xi)) (filter (\<lambda>xk. xk \<noteq> xj) nbs)) d1 = Inr (b, d')"
          by simp
        from "2.hyps"(2)[OF ns rv refl True gi nonempty nb e] k1 f1 show ?thesis by simp
      qed
    qed
  qed
qed

lemma ForwardChecking_infer_frame:
  assumes "ForwardChecking_infer csp x val a d = Inr (r, d')"
  shows "map fst d' = map fst d \<and> (\<forall>k. contains a k \<longrightarrow> map_of d' k = map_of d k)"
proof -
  from assms obtain ns where "fc_loop val a ns 0 d = Inr (r, d')"
    by (cases "get_neighbors csp x") (simp_all add: ForwardChecking_infer_def)
  then show ?thesis by (rule fc_loop_frame)
qed

lemma AC3_infer_frame:
  assumes "AC3_infer csp x val a d = Inr (r, d')"
  shows "map fst d' = map fst d \<and> (\<forall>k. contains a k \<longrightarrow> map_of d' k = map_of d k)"
proof -
  from assms obtain ns where nb: "get_neighbors csp x = Inr ns"
    by (cases "get_neighbors csp x") (simp_all add: AC3_infer_def)
  from assms nb obtain ok d1 where fc: "ac3_fc_loop val a ns d = Inr (ok, d1)"
    by (cases "ac3_fc_loop val a ns d") (auto simp: AC3_infer_def)
  note f1 = ac3_fc_loop_frame[OF fc]
  show ?thesis
  proof (cases ok)
    case False
    with assms nb fc have "d' = d1" by (simp add: AC3_infer_def)
    with f1 show ?thesis by simp
  next
    case True
    from assms nb fc True obtain consistent d2 where
      en: "enforce_loop csp (Some a) (get_all_arcs csp) d1 = Inr (consistent, d2)"
      by (cases "enforce csp d1 (Some a)") (auto simp: AC3_infer_def enforce_def)
    from assms nb fc True en have "d' = d2"
      by (cases consistent) (simp_all add: AC3_infer_def enforce_def Let_def)
    with enforce_loop_frame[OF en] f1 show ?thesis by simp
  qed
qed

text \<open>
  Claim C8. Whenever the forward-checking \<open>infer\<close> or the AC-3 \<open>infer\<close> returns (a count or
  a wipeout), the domain of every variable of the assignment, the just-assigned one among
  them, is what it was before the call, and so are the keys of the domains: values are
  removed from the domains of unassigned variables only.
\<close>

theorem inference_keeps_assigned_domains:
  assumes "contains a k"
  shows "(\<forall>r d'. ForwardChecking_infer csp x val a d = Inr (r, d') \<longrightarrow>
            getitem d' k = getitem d k \<and> map fst d' = map fst d) \<and>
         (\<forall>r d'. AC3_infer csp x val a d = Inr (r, d') \<longrightarrow>
            getitem d' k = getitem d k \<and> map fst d' = map fst d)"
proof (intro conjI allI impI)
  fix r d'
  assume "ForwardChecking_infer csp x val a d = Inr (r, d')"
  from ForwardChecking_infer_frame[OF this] assms
  show "getitem d' k = getitem d k" "map fst d' = map fst d"
    by (simp_all add: getitem_def)
next
  fix r d'
  assume "AC3_infer csp x val a d = Inr (r, d')"
  from AC3_infer_frame[OF this] assms
  show "getitem d' k = getitem d k" "map fst d' = map fst d"
    by (simp_all add: getitem_def)
qed

theorem inference_keeps_assigned_domains_witness:
  "ForwardChecking_infer
     \<lparr>variables = [''X'', ''Y''], domains = [], constraints = [(''X'', ''Y'')]\<rparr>
     ''X'' ''Red'' [(''X'', ''Red'')] [(''X'', [''Red'']), (''Y'', [''Red'', ''Green''])] =
     Inr (Pruned 1, [(''X'', [''Red'']), (''Y'', [''Green''])]) \<and>
   AC3_infer
     \<lparr>variables = [''X'', ''Y''], domains = [], constraints = [(''X'', ''Y'')]\<rparr>
     ''X'' ''Red'' [(''X'', ''Red'')] [(''X'', [''Red'', ''Blue'']), (''Y'', [''Red'', ''Green''])] =
     Inr (Pruned 1, [(''X'', [''Red'', ''Blue'']), (''Y'', [''Green''])]) \<and>
   getitem [(''X'', [''Red'']), (''Y'', [''Green''])] ''X'' =
     getitem [(''X'', [''Red'']), (''Y'', [''Red'', ''Green''])] ''X'' \<and>
   getitem [(''X'', [''Red'', ''Blue'']), (''Y'', [''Green''])] ''X'' =
     getitem [(''X'', [''Red'', ''Blue'']), (''Y'', [''Red'', ''Green''])] ''X''"
proof -
  let ?csp = "\<lparr>variables = [''X'', ''Y''], domains = [], constraints = [(''X'', ''Y'')]\<rparr>"
  let ?a = "[(''X'', ''Red'')]"
  have nb: "get_neighbors ?csp ''X'' = Inr [''Y'']" "get_neighbors ?csp ''Y'' = Inr [''X'']"
    by (simp_all add: get_neighbors_def graph_def add_edge_def add_nbr_def add_node_def
        contains_def setitem_def)
  have c: "contains ?a ''X''" by (simp add: contains_def)
  have fc: "ForwardChecking_infer ?csp ''X'' ''Red'' ?a
              [(''X'', [''Red'']), (''Y'', [''Red'', ''Green''])] =
            Inr (Pruned 1, [(''X'', [''Red'']), (''Y'', [''Green''])])"
    by (simp add: ForwardChecking_infer_def nb contains_def getitem_def list_remove_def
        setitem_def)
  have ac: "AC3_infer ?csp ''X'' ''Red'' ?a
              [(''X'', [''Red'', ''Blue'']), (''Y'', [''Red'', ''Green''])] =
            Inr (Pruned 1, [(''X'', [''Red'', ''Blue'']), (''Y'', [''Green''])])"
    by (simp add: AC3_infer_def nb contains_def getitem_def list_remove_def setitem_def
        enforce_def get_all_arcs_def skip_assigned_def revise_def total_size_def)
  from inference_keeps_assigned_domains[OF c, of ?csp "''X''" "''Red''"] fc ac
  show ?thesis by simp
qed

section \<open>The shape of a search\<close>

text \<open>What a returning activation of the loop over the values has done with its first value\<close>

lemma try_values_ConsE:
  assumes "try_values recurse slv csp v (val # rest) st = Return (r, st')"
  obtains
    (inconsistent) "is_consistent csp v val (s_assignment st) = Inr False"
      "try_values recurse slv csp v rest st = Return (r, st')"
  | (wipeout) st2 a' where "is_consistent csp v val (s_assignment st) = Inr True"
      "run_inference slv csp v val (st\<lparr>s_assignment := setitem (s_assignment st) v val\<rparr>) =
         Inr (False, st2)"
      "delitem (s_assignment st2) v = Inr a'"
      "try_values recurse slv csp v rest
         (st2\<lparr>s_assignment := a', s_domains := dict_update (s_domains st2) (s_domains st),
              s_stats := (s_stats st2)\<lparr>backtracks := backtracks (s_stats st2) + 1\<rparr>\<rparr>) =
         Return (r, st')"
  | (found) st2 A where "is_consistent csp v val (s_assignment st) = Inr True"
      "run_inference slv csp v val (st\<lparr>s_assignment := setitem (s_assignment st) v val\<rparr>) =
         Inr (True, st2)"
      "recurse st2 = Return (Some A, st')" "r = Some A"
  | (failed) st2 st3 a' where "is_consistent csp v val (s_assignment st) = Inr True"
      "run_inference slv csp v val (st\<lparr>s_assignment := setitem (s_assignment st) v val\<rparr>) =
         Inr (True, st2)"
      "recurse st2 = Return (None, st3)"
      "delitem (s_assignment st3) v = Inr a'"
      "try_values recurse slv csp v rest
         (st3\<lparr>s_assignment := a', s_domains := dict_update (s_domains st3) (s_domains st),
              s_stats := (s_stats st3)\<lparr>backtracks := backtracks (s_stats st3) + 1\<rparr>\<rparr>) =
         Return (r, st')"
proof (cases "is_consistent csp v val (s_assignment st)")
  case (Inl e)
  with assms show ?thesis by simp
next
  case (Inr consistent)
  show ?thesis
  proof (cases consistent)
    case False
    with assms Inr show ?thesis by (intro inconsistent) auto
  next
    case True
    let ?st1 = "st\<lparr>s_assignment := setitem (s_assignment st) v val\<rparr>"
    show ?thesis
    proof (cases "run_inference slv csp v val ?st1")
      case (Inl e)
      with assms Inr True show ?thesis by (simp add: Let_def)
    next
      case ri: (Inr p)
      obtain ok st2 where p: "p = (ok, st2)" by (cases p)
      show ?thesis
      proof (cases ok)
        case False
        from assms Inr True ri p False obtain a' where
          d: "delitem (s_assignment st2) v = Inr a'"
          by (cases "delitem (s_assignment st2) v") (simp_all add: Let_def)
        from assms Inr True ri p False d show ?thesis
          by (intro wipeout[of st2 a']) (auto simp: Let_def)
      next
        case ok: True
        show ?thesis
        proof (cases "recurse st2")
          case OutOfFuel
          with assms Inr True ri p ok show ?thesis by (simp add: Let_def)
        next
          case (Raise e)
          with assms Inr True ri p ok show ?thesis by (simp add: Let_def)
        next
          case (Return q)
          obtain res st3 where q: "q = (res, st3)" by (cases q)
          show ?thesis
          proof (cases res)
            case (Some A)
            with assms Inr True ri p ok Return q show ?thesis
              by (intro found[of st2 A]) (auto simp: Let_def)
          next
            case None
            from assms Inr True ri p ok Return q None obtain a' where
              d: "delitem (s_assignment st3) v = Inr a'"
              by (cases "delitem (s_assignment st3) v") (simp_all add: Let_def)
            from assms Inr True ri p ok Return q None d show ?thesis
              by (intro failed[of st2 st3 a']) (auto simp: Let_def)
          qed
        qed
      qed
    qed
  qed
qed

text \<open>What a returning activation of \<open>_backtrack\<close> has done\<close>

lemma backtrack_SucE:
  assumes "backtrack (Suc fuel) slv csp st = Return (r, st')"
  obtains
    (budget) "max_nodes slv \<le> nodes_explored (s_stats st)" "r = None" "st' = st"
  | (complete) "nodes_explored (s_stats st) < max_nodes slv" "is_complete csp (s_assignment st)"
      "r = Some (s_assignment st)" "st' = st"
  | (no_variable) "nodes_explored (s_stats st) < max_nodes slv"
      "\<not> is_complete csp (s_assignment st)"
      "solver_select_variable slv csp (s_assignment st) (s_domains st) = Inr None"
      "r = None"
      "st' = st\<lparr>s_stats := (s_stats st)\<lparr>nodes_explored := nodes_explored (s_stats st) + 1\<rparr>\<rparr>"
  | (search) v vals where "nodes_explored (s_stats st) < max_nodes slv"
      "\<not> is_complete csp (s_assignment st)"
      "solver_select_variable slv csp (s_assignment st) (s_domains st) = Inr (Some v)"
      "solver_order_values slv csp (Some v) (s_assignment st) (s_domains st) = Inr vals"
      "try_values (backtrack fuel slv csp) slv csp v vals
         (st\<lparr>s_stats := (s_stats st)\<lparr>nodes_explored := nodes_explored (s_stats st) + 1\<rparr>\<rparr>) =
         Return (r, st')"
proof (cases "max_nodes slv \<le> nodes_explored (s_stats st)")
  case True
  with assms show ?thesis by (intro budget) auto
next
  case nb: False
  show ?thesis
  proof (cases "is_complete csp (s_assignment st)")
    case True
    with assms nb show ?thesis by (intro complete) auto
  next
    case nc: False
    show ?thesis
    proof (cases "solver_select_variable slv csp (s_assignment st) (s_domains st)")
      case (Inl e)
      with assms nb nc show ?thesis by (simp add: Let_def)
    next
      case sel: (Inr variable)
      show ?thesis
      proof (cases "solver_order_values slv csp variable (s_assignment st) (s_domains st)")
        case (Inl e)
        with assms nb nc sel show ?thesis by (simp add: Let_def)
      next
        case ord: (Inr vals)
        show ?thesis
        proof (cases variable)
          case None
          with assms nb nc sel ord show ?thesis
            by (intro no_variable) (auto simp: Let_def split: if_splits)
        next
          case (Some v)
          with assms nb nc sel ord show ?thesis
            by (intro search[of v vals]) (auto simp: Let_def)
        qed
      qed
    qed
  qed
qed

lemma run_inference_assignment:
  "run_inference slv csp v val st = Inr (ok, st2) \<Longrightarrow> s_assignment st2 = s_assignment st"
  by (auto simp: run_inference_def Let_def split: option.splits sum.splits infer_result.splits)



section \<open>The node budget\<close>




lemma solve_ReturnE:
  assumes "solve fuel t0 t1 slv csp = Return (r, slv')"
  obtains st where
    "backtrack fuel (slv\<lparr>stats := new_stats\<rparr>) csp
       \<lparr>s_stats = new_stats, s_assignment = [], s_domains = copy_domains csp\<rparr> = Return (r, st)"
    "slv' = slv\<lparr>stats := (s_stats st)\<lparr>time_elapsed := t1 - t0, solution_found := (r \<noteq> None)\<rparr>\<rparr>"
  using assms by (auto simp: solve_def Let_def split: outcome.splits prod.splits)




section \<open>The statistics of a search\<close>


















section \<open>Soundness of the search\<close>

text \<open>
  The constraints of a model are pairs of two different variables of the model. A partial
  assignment is consistent when its keys are variables and no constraint joins two
  variables that it gives the same value.
\<close>

definition proper_constraints :: "CSPModel \<Rightarrow> bool" where
  "proper_constraints csp =
     (\<forall>(u, v)\<in>set (constraints csp). u \<noteq> v \<and> u \<in> set (variables csp) \<and> v \<in> set (variables csp))"

definition consistent_assignment :: "CSPModel \<Rightarrow> assignment \<Rightarrow> bool" where
  "consistent_assignment csp a =
     (distinct (map fst a) \<and> fst ` set a \<subseteq> set (variables csp) \<and>
      (\<forall>(u, v)\<in>set (constraints csp).
         \<forall>cu cv. map_of a u = Some cu \<and> map_of a v = Some cv \<longrightarrow> cu \<noteq> cv))"

lemma is_consistent_loop_iff:
  "is_consistent_loop val a ns = (\<forall>n\<in>set ns. map_of a n \<noteq> Some val)"
  by (induction ns) (auto simp: contains_def)

lemma is_consistent_True:
  assumes "is_consistent csp v val a = Inr True"
  obtains ns where "get_neighbors csp v = Inr ns" "\<forall>n\<in>set ns. map_of a n \<noteq> Some val"
proof -
  from assms obtain ns where nb: "get_neighbors csp v = Inr ns"
    by (cases "get_neighbors csp v") (simp_all add: is_consistent_def)
  with assms have "is_consistent_loop val a ns" by (simp add: is_consistent_def)
  then have "\<forall>n\<in>set ns. map_of a n \<noteq> Some val" by (simp add: is_consistent_loop_iff)
  with nb show ?thesis by (rule that)
qed

lemma setitem_consistent:
  assumes pc: "proper_constraints csp"
      and ca: "consistent_assignment csp a"
      and ic: "is_consistent csp v val a = Inr True"
  shows "consistent_assignment csp (setitem a v val)"
proof -
  from ic obtain ns where nb: "get_neighbors csp v = Inr ns"
    and free: "\<forall>n\<in>set ns. map_of a n \<noteq> Some val"
    by (rule is_consistent_True)
  have ns: "set ns = {w. (v, w) \<in> set (constraints csp) \<or> (w, v) \<in> set (constraints csp)}"
    using nb by (rule get_neighbors_set)
  have "v \<in> set (variables csp) \<union> fst ` set (constraints csp) \<union> snd ` set (constraints csp)"
  proof (rule ccontr)
    assume "\<not> ?thesis"
    then have "get_neighbors csp v = Inl NetworkXError" by (rule get_neighbors_raises)
    with nb show False by simp
  qed
  moreover have "fst ` set (constraints csp) \<subseteq> set (variables csp)"
    "snd ` set (constraints csp) \<subseteq> set (variables csp)"
    using pc by (auto simp: proper_constraints_def)
  ultimately have v: "v \<in> set (variables csp)" by blast
  have d: "distinct (map fst (setitem a v val))"
    using ca by (simp add: consistent_assignment_def setitem_def distinct_update)
  have k: "fst ` set (setitem a v val) \<subseteq> set (variables csp)"
    using ca v by (auto simp: consistent_assignment_def setitem_def dom_update)
  have c: "\<forall>(u, w)\<in>set (constraints csp).
         \<forall>cu cw. map_of (setitem a v val) u = Some cu \<and> map_of (setitem a v val) w = Some cw \<longrightarrow>
           cu \<noteq> cw"
  proof (intro ballI, clarify)
    fix u w cu
    assume e: "(u, w) \<in> set (constraints csp)"
      and mu: "map_of (setitem a v val) u = Some cu"
      and mw: "map_of (setitem a v val) w = Some cu"
    from pc e have uw: "u \<noteq> w" by (auto simp: proper_constraints_def)
    show False
    proof (cases "u = v")
      case True
      with uw mu mw have "cu = val" "map_of a w = Some val" by (simp_all add: map_of_setitem)
      moreover from e True ns have "w \<in> set ns" by simp
      ultimately show False using free by blast
    next
      case False
      show False
      proof (cases "w = v")
        case True
        with False mu mw have "cu = val" "map_of a u = Some val" by (simp_all add: map_of_setitem)
        moreover from e True ns have "u \<in> set ns" by simp
        ultimately show False using free by blast
      next
        case wv: False
        with False mu mw have "map_of a u = Some cu" "map_of a w = Some cu"
          by (simp_all add: map_of_setitem)
        with ca e show False by (auto simp: consistent_assignment_def)
      qed
    qed
  qed
  from d k c show ?thesis by (simp add: consistent_assignment_def)
qed

lemma delitem_consistent:
  assumes ca: "consistent_assignment csp a" and de: "delitem a v = Inr a'"
  shows "consistent_assignment csp a'"
proof -
  from de have a': "a' = AList.delete v a"
    by (simp add: delitem_def split: if_splits)
  have m: "map_of a' = (map_of a)(v := None)" by (simp add: a' delete_conv')
  have "distinct (map fst a')" using ca by (simp add: a' consistent_assignment_def distinct_delete)
  moreover have "fst ` set a' \<subseteq> set (variables csp)"
    using ca dom_delete_subset[of v a] by (auto simp: a' consistent_assignment_def)
  moreover have "\<forall>(u, w)\<in>set (constraints csp).
         \<forall>cu cw. map_of a' u = Some cu \<and> map_of a' w = Some cw \<longrightarrow> cu \<noteq> cw"
  proof (intro ballI, clarify)
    fix u w cu
    assume e: "(u, w) \<in> set (constraints csp)"
      and mu: "map_of a' u = Some cu" and mw: "map_of a' w = Some cu"
    from mu mw have "map_of a u = Some cu \<and> map_of a w = Some cu"
      unfolding m by (simp split: if_splits)
    moreover from ca have "\<forall>(u, v)\<in>set (constraints csp).
         \<forall>cu cv. map_of a u = Some cu \<and> map_of a v = Some cv \<longrightarrow> cu \<noteq> cv"
      unfolding consistent_assignment_def by blast
    ultimately show False using e by blast
  qed
  ultimately show ?thesis by (simp add: consistent_assignment_def)
qed

definition sound_result :: "CSPModel \<Rightarrow> assignment option \<Rightarrow> search_state \<Rightarrow> bool" where
  "sound_result csp r st' =
     (consistent_assignment csp (s_assignment st') \<and>
      (\<forall>A. r = Some A \<longrightarrow> A = s_assignment st' \<and> is_complete csp A))"

lemma try_values_sound:
  assumes pc: "proper_constraints csp"
      and R: "\<And>s r s'. recurse s = Return (r, s') \<Longrightarrow> consistent_assignment csp (s_assignment s) \<Longrightarrow>
                sound_result csp r s'"
  shows "try_values recurse slv csp v vals st = Return (r, st') \<Longrightarrow>
         consistent_assignment csp (s_assignment st) \<Longrightarrow> sound_result csp r st'"
proof (induction vals arbitrary: st)
  case Nil
  then show ?case by (simp add: sound_result_def)
next
  case (Cons val rest)
  let ?st1 = "st\<lparr>s_assignment := setitem (s_assignment st) v val\<rparr>"
  from Cons.prems(1) show ?case
  proof (cases rule: try_values_ConsE)
    case inconsistent
    from Cons.IH[OF inconsistent(2) Cons.prems(2)] show ?thesis .
  next
    case (wipeout st2 a')
    have "consistent_assignment csp (s_assignment ?st1)"
      using setitem_consistent[OF pc Cons.prems(2) wipeout(1)] by simp
    with run_inference_assignment[OF wipeout(2)]
    have "consistent_assignment csp (s_assignment st2)" by simp
    from delitem_consistent[OF this wipeout(3)] Cons.IH[OF wipeout(4)]
    show ?thesis by simp
  next
    case (found st2 A)
    have "consistent_assignment csp (s_assignment ?st1)"
      using setitem_consistent[OF pc Cons.prems(2) found(1)] by simp
    with run_inference_assignment[OF found(2)]
    have "consistent_assignment csp (s_assignment st2)" by simp
    from R[OF found(3) this] found(4) show ?thesis by simp
  next
    case (failed st2 st3 a')
    have "consistent_assignment csp (s_assignment ?st1)"
      using setitem_consistent[OF pc Cons.prems(2) failed(1)] by simp
    with run_inference_assignment[OF failed(2)]
    have "consistent_assignment csp (s_assignment st2)" by simp
    from R[OF failed(3) this] have "consistent_assignment csp (s_assignment st3)"
      by (simp add: sound_result_def)
    from delitem_consistent[OF this failed(4)] Cons.IH[OF failed(5)]
    show ?thesis by simp
  qed
qed

lemma backtrack_sound:
  assumes pc: "proper_constraints csp"
  shows "backtrack fuel slv csp st = Return (r, st') \<Longrightarrow>
         consistent_assignment csp (s_assignment st) \<Longrightarrow> sound_result csp r st'"
proof (induction fuel arbitrary: st r st')
  case 0
  then show ?case by simp
next
  case (Suc fuel)
  from Suc.prems(1) show ?case
  proof (cases rule: backtrack_SucE)
    case budget
    with Suc.prems(2) show ?thesis by (simp add: sound_result_def)
  next
    case complete
    with Suc.prems(2) show ?thesis by (simp add: sound_result_def)
  next
    case no_variable
    with Suc.prems(2) show ?thesis by (simp add: sound_result_def)
  next
    case (search v vals)
    show ?thesis
    proof (rule try_values_sound[OF pc _ search(5)])
      fix s r s'
      assume "backtrack fuel slv csp s = Return (r, s')"
        and "consistent_assignment csp (s_assignment s)"
      then show "sound_result csp r s'" by (rule Suc.IH)
    next
      show "consistent_assignment csp
              (s_assignment (st\<lparr>s_stats := (s_stats st)\<lparr>nodes_explored := nodes_explored (s_stats st) + 1\<rparr>\<rparr>))"
        using Suc.prems(2) by simp
    qed
  qed
qed

lemma is_valid_loop_True:
  "\<forall>(u, v)\<in>set cs. \<exists>cu cv. map_of a u = Some cu \<and> map_of a v = Some cv \<and> cu \<noteq> cv \<Longrightarrow>
   is_valid_loop a cs = Inr True"
  by (induction cs) (auto simp: getitem_def)

lemma complete_consistent_valid:
  assumes pc: "proper_constraints csp"
      and ca: "consistent_assignment csp a"
      and co: "is_complete csp a"
  shows "fst ` set a = set (variables csp) \<and>
         (\<forall>(u, v)\<in>set (constraints csp).
            \<exists>cu cv. map_of a u = Some cu \<and> map_of a v = Some cv \<and> cu \<noteq> cv) \<and>
         is_valid_solution csp a = Inr True"
proof -
  from ca have d: "distinct (map fst a)" and k: "fst ` set a \<subseteq> set (variables csp)"
    by (simp_all add: consistent_assignment_def)
  have "card (fst ` set a) = length a"
    using d distinct_card[of "map fst a"] by simp
  also have "\<dots> = length (variables csp)" using co by (simp add: is_complete_def)
  finally have "card (set (variables csp)) \<le> card (fst ` set a)"
    using card_length[of "variables csp"] by simp
  with k have keys: "fst ` set a = set (variables csp)"
    by (intro card_seteq) simp_all
  have dom: "\<And>u. u \<in> set (variables csp) \<Longrightarrow> \<exists>c. map_of a u = Some c"
  proof -
    fix u
    assume "u \<in> set (variables csp)"
    with keys have "u \<in> fst ` set a" by simp
    then show "\<exists>c. map_of a u = Some c"
      by (cases "map_of a u") (auto simp: map_of_eq_None_iff)
  qed
  have c: "\<forall>(u, v)\<in>set (constraints csp).
            \<exists>cu cv. map_of a u = Some cu \<and> map_of a v = Some cv \<and> cu \<noteq> cv"
  proof (intro ballI, clarify)
    fix u v
    assume e: "(u, v) \<in> set (constraints csp)"
    with pc have "u \<in> set (variables csp)" "v \<in> set (variables csp)"
      by (auto simp: proper_constraints_def)
    then obtain cu cv where m: "map_of a u = Some cu" "map_of a v = Some cv"
      using dom by blast
    with ca e have "cu \<noteq> cv" by (auto simp: consistent_assignment_def)
    with m show "\<exists>cu cv. map_of a u = Some cu \<and> map_of a v = Some cv \<and> cu \<noteq> cv" by blast
  qed
  from is_valid_loop_True[OF c] co have "is_valid_solution csp a = Inr True"
    by (simp add: is_valid_solution_def)
  with keys c show ?thesis by blast
qed

text \<open>
  Claim C1, for a model whose constraints are pairs of two different variables of the
  model; the strategies of the solver are any functions. An assignment that \<open>solve\<close>
  returns is complete, it gives a value to every variable of the model, the two variables
  of every constraint have different values, and \<open>is_valid_solution\<close> accepts it.
\<close>

theorem solve_sound:
  assumes "proper_constraints csp"
      and "solve fuel t0 t1 slv csp = Return (Some A, slv')"
  shows "is_complete csp A \<and> (\<forall>v\<in>set (variables csp). contains A v) \<and>
         (\<forall>(u, v)\<in>set (constraints csp).
            \<exists>cu cv. getitem A u = Inr cu \<and> getitem A v = Inr cv \<and> cu \<noteq> cv) \<and>
         is_valid_solution csp A = Inr True"
proof -
  let ?st0 = "\<lparr>s_stats = new_stats, s_assignment = [], s_domains = copy_domains csp\<rparr>"
  from assms(2) obtain st where
    b: "backtrack fuel (slv\<lparr>stats := new_stats\<rparr>) csp ?st0 = Return (Some A, st)"
    by (rule solve_ReturnE)
  have "consistent_assignment csp (s_assignment ?st0)"
    by (simp add: consistent_assignment_def)
  from backtrack_sound[OF assms(1) b this]
  have ca: "consistent_assignment csp A" and co: "is_complete csp A"
    by (auto simp: sound_result_def)
  from complete_consistent_valid[OF assms(1) ca co]
  have keys: "fst ` set A = set (variables csp)"
    and c: "\<forall>(u, v)\<in>set (constraints csp).
            \<exists>cu cv. map_of A u = Some cu \<and> map_of A v = Some cv \<and> cu \<noteq> cv"
    and v: "is_valid_solution csp A = Inr True"
    by blast+
  have "\<forall>v\<in>set (variables csp). contains A v"
  proof
    fix v
    assume "v \<in> set (variables csp)"
    with keys have "v \<in> fst ` set A" by simp
    then show "contains A v"
      by (cases "map_of A v") (auto simp: contains_def map_of_eq_None_iff)
  qed
  moreover from c have "\<forall>(u, v)\<in>set (constraints csp).
            \<exists>cu cv. getitem A u = Inr cu \<and> getitem A v = Inr cv \<and> cu \<noteq> cv"
    by (simp add: getitem_Inr)
  ultimately show ?thesis using co v by blast
qed

theorem solve_sound_witness:
  "(case solve 5 0 0
      \<lparr>inference = Some ac3_inference, select_variable = Some mrv_with_degree_tiebreaker,
       order_values = Some lcv, use_forward_checking = False, use_ac3 = True,
       max_nodes = 100000, stats = new_stats\<rparr>
      \<lparr>variables = [''A'', ''B'', ''C'', ''D''],
       domains = [(''A'', [''R'', ''G'', ''B'']), (''B'', [''R'', ''G'', ''B'']),
                  (''C'', [''R'', ''G'', ''B'']), (''D'', [''R'', ''G''])],
       constraints = [(''A'', ''B''), (''B'', ''C''), (''A'', ''C''), (''C'', ''D'')]\<rparr> of
      Return (r, s) \<Rightarrow>
        r = Some [(''D'', ''R''), (''C'', ''G''), (''A'', ''R''), (''B'', ''B'')] \<and>
        is_valid_solution
          \<lparr>variables = [''A'', ''B'', ''C'', ''D''],
       domains = [(''A'', [''R'', ''G'', ''B'']), (''B'', [''R'', ''G'', ''B'']),
                  (''C'', [''R'', ''G'', ''B'']), (''D'', [''R'', ''G''])],
       constraints = [(''A'', ''B''), (''B'', ''C''), (''A'', ''C''), (''C'', ''D'')]\<rparr>
          [(''D'', ''R''), (''C'', ''G''), (''A'', ''R''), (''B'', ''B'')] = Inr True
    | _ \<Rightarrow> False)"
proof -
  let ?slv = "\<lparr>inference = Some ac3_inference, select_variable = Some mrv_with_degree_tiebreaker,
       order_values = Some lcv, use_forward_checking = False, use_ac3 = True,
       max_nodes = 100000, stats = new_stats\<rparr>"
  let ?csp = "\<lparr>variables = [''A'', ''B'', ''C'', ''D''],
       domains = [(''A'', [''R'', ''G'', ''B'']), (''B'', [''R'', ''G'', ''B'']),
                  (''C'', [''R'', ''G'', ''B'']), (''D'', [''R'', ''G''])],
       constraints = [(''A'', ''B''), (''B'', ''C''), (''A'', ''C''), (''C'', ''D'')]\<rparr>"
  have pc: "proper_constraints ?csp" by (simp add: proper_constraints_def)
  have "case solve 5 0 0 ?slv ?csp of
          Return (r, s) \<Rightarrow> r = Some [(''D'', ''R''), (''C'', ''G''), (''A'', ''R''), (''B'', ''B'')]
        | _ \<Rightarrow> False"
    by code_simp
  then obtain s where
    ev: "solve 5 0 0 ?slv ?csp =
           Return (Some [(''D'', ''R''), (''C'', ''G''), (''A'', ''R''), (''B'', ''B'')], s)"
    by (auto split: outcome.splits)
  from solve_sound[OF pc ev]
  have "is_valid_solution ?csp [(''D'', ''R''), (''C'', ''G''), (''A'', ''R''), (''B'', ''B'')] = Inr True"
    by blast
  with ev show ?thesis by simp
qed

text \<open>
  Claim C1 as it is worded, for every model without self-pairs, fails when a constraint
  names a variable that the model does not declare, which the constructor accepts: the
  search assigns the declared variables only, the returned assignment has no value for
  \<open>B\<close>, and \<open>is_valid_solution\<close> raises \<open>KeyError\<close> on it.
\<close>

theorem undeclared_constraint_variable:
  "(case solve 5 0 0
      \<lparr>inference = None, select_variable = None, order_values = None,
       use_forward_checking = False, use_ac3 = False, max_nodes = 100000, stats = new_stats\<rparr>
      \<lparr>variables = [''A''], domains = [(''A'', [''R''])], constraints = [(''A'', ''B'')]\<rparr> of
      Return (r, s) \<Rightarrow> r = Some [(''A'', ''R'')]
    | _ \<Rightarrow> False) \<and>
   getitem [(''A'', ''R'')] ''B'' = Inl KeyError \<and>
   is_valid_solution
     \<lparr>variables = [''A''], domains = [(''A'', [''R''])], constraints = [(''A'', ''B'')]\<rparr>
     [(''A'', ''R'')] = Inl KeyError"
  by code_simp

end
